theory Spec2Isabelle
  imports
    Complex_Main
    "HOL-Library.Word"
    "HOL-Library.Finite_Map"
    "HOL-Library.Char_ord"
    "HOL-Library.List_Lexorder"
begin

unbundle bit_operations_syntax

section \<open>The autotune cache of paddle/phi/kernels/autotune/cache.h\<close>

text \<open>
  The header defines three things: the hash combiner behind \<open>GetKey\<close>, the class template
  \<open>AlgorithmsCache\<close> (one map from keys to algorithms with hit and miss counters), and the
  singleton \<open>AutoTuneCache\<close> (a map from algorithm-type names to caches, with aggregated
  statistics).  Each member function becomes a function on an explicit state.  Isabelle
  identifiers cannot end in an underscore, so the data members \<open>hash_\<close>, \<open>cache_hits_\<close>,
  \<open>cache_misses_\<close>, \<open>auto_tune_map_\<close>, \<open>total_size_\<close>, \<open>total_cache_hits_\<close> and
  \<open>total_cache_misses_\<close> lose theirs.

  \<open>std::size_t\<close> is the 64-bit unsigned integer of the LP64 targets, where \<open>+\<close> wraps.
  \<open>int64_t\<close> is a 64-bit pattern read in two's complement by \<open>sint\<close>; \<open>+\<close> on it wraps,
  which is what the compiled code does where C++ leaves signed overflow undefined.
\<close>

type_synonym size_t = "64 word"
type_synonym int64_t = "64 word"

subsection \<open>HashCombine, std::hash of a vector, GetKey (lines 25--59)\<close>

text \<open>
  An argument of \<open>HashCombine\<close> is either a value of a type with a standard \<open>std::hash\<close>
  (a scalar), or a \<open>std::vector\<close>, whose elements are again arguments.  The standard
  hashers are library code: they are the parameter \<open>h\<close>.
\<close>

datatype 'a arg = Scalar 'a | Vec "'a arg list"

text \<open>
  \<open>HashCombine h seed args\<close> is the variadic template of lines 29--34 together with its
  base case of line 25; \<open>std_hash\<close> is \<open>std::hash<T>\<close>, with the specialisation for
  vectors of lines 40--48, whose \<open>for\<close> loop is \<open>vec_loop\<close>.  The constant
  \<open>0x9e3779b9\<close> is an \<open>unsigned int\<close> and is zero-extended to \<open>size_t\<close>.
\<close>

fun HashCombine :: "('a \<Rightarrow> size_t) \<Rightarrow> size_t \<Rightarrow> 'a arg list \<Rightarrow> size_t"
  and std_hash :: "('a \<Rightarrow> size_t) \<Rightarrow> 'a arg \<Rightarrow> size_t"
  and vec_loop :: "('a \<Rightarrow> size_t) \<Rightarrow> 'a arg list \<Rightarrow> size_t \<Rightarrow> size_t" where
  "HashCombine h seed [] = seed"
| "HashCombine h seed (v # rest) =
     HashCombine h
       (seed XOR (std_hash h v + 0x9e3779b9 + push_bit 6 seed + drop_bit 2 seed)) rest"
| "std_hash h (Scalar x) = h x"
| "std_hash h (Vec vec) = vec_loop h vec 0"
| "vec_loop h [] seed = seed"
| "vec_loop h (val # vec) seed = vec_loop h vec (HashCombine h seed [val])"

definition GetKey :: "('a \<Rightarrow> size_t) \<Rightarrow> 'a arg list \<Rightarrow> size_t" where
  "GetKey h args = HashCombine h 0 args"

text \<open>
  The description to compare with: one mixing step, written out on natural numbers with
  the shift to the left as a multiplication, the shift to the right as a division and the
  sum reduced modulo \<open>2^64\<close>; a vector reduced by that step over its elements from seed
  0; and the arguments folded left to right from seed 0.
\<close>

definition spec_mix :: "size_t \<Rightarrow> size_t \<Rightarrow> size_t" where
  "spec_mix seed hv =
     seed XOR of_nat ((unat hv + 0x9e3779b9 + unat seed * 2 ^ 6 + unat seed div 2 ^ 2) mod 2 ^ 64)"

fun spec_hash :: "('a \<Rightarrow> size_t) \<Rightarrow> 'a arg \<Rightarrow> size_t" where
  "spec_hash h (Scalar x) = h x"
| "spec_hash h (Vec xs) = foldl (\<lambda>seed a. spec_mix seed (spec_hash h a)) 0 xs"

definition spec_GetKey :: "('a \<Rightarrow> size_t) \<Rightarrow> 'a arg list \<Rightarrow> size_t" where
  "spec_GetKey h args = foldl (\<lambda>seed a. spec_mix seed (spec_hash h a)) 0 args"

subsection \<open>The arithmetic of \<open>float\<close>\<close>

text \<open>
  \<open>float\<close> is IEEE 754 binary32: a sign bit, eight exponent bits and 23 fraction bits.
  Exponent 255 is an infinity (fraction 0) or a NaN; exponent 0 is a zero or a subnormal
  number \<open>fraction / 2^149\<close>; any other exponent \<open>e\<close> is the normal number
  \<open>(2^23 + fraction) * 2^(e - 150)\<close>.
\<close>

record float =
  sign :: bool
  exponent :: "8 word"
  fraction :: "23 word"

definition float_is_nan :: "float \<Rightarrow> bool" where
  "float_is_nan x = (exponent x = 255 \<and> fraction x \<noteq> 0)"

definition float_is_inf :: "float \<Rightarrow> bool" where
  "float_is_inf x = (exponent x = 255 \<and> fraction x = 0)"

definition float_is_finite :: "float \<Rightarrow> bool" where
  "float_is_finite x = (exponent x \<noteq> 255)"

text \<open>The absolute value and the value of a finite \<open>float\<close>.\<close>

definition float_magnitude :: "float \<Rightarrow> rat" where
  "float_magnitude x =
     (if exponent x = 0 then of_nat (unat (fraction x)) / 2 ^ 149
      else of_nat (2 ^ 23 + unat (fraction x)) * 2 ^ unat (exponent x) / 2 ^ 150)"

definition float_value :: "float \<Rightarrow> rat" where
  "float_value x = (if sign x then - float_magnitude x else float_magnitude x)"

text \<open>
  Every operation delivers the exact result rounded to the nearest \<open>float\<close>, ties to the
  even fraction (the default rounding mode).  \<open>round_half_even\<close> rounds to an integer.
  \<open>binade e x\<close> halves \<open>x\<close>, a multiple of the unit \<open>2^(e - 150)\<close>, until it is below
  \<open>2^24\<close>, counting the exponent up.  \<open>float_round s q\<close> is the \<open>float\<close> of sign \<open>s\<close>
  nearest to the magnitude \<open>q\<close>: a subnormal number or zero when fewer than 24 bits are
  left at exponent 1, an infinity from exponent 255 on.
\<close>

definition round_half_even :: "rat \<Rightarrow> int" where
  "round_half_even q =
     (let n = \<lfloor>q\<rfloor>; r = q - of_int n
      in if r < 1 / 2 then n else if 1 / 2 < r then n + 1 else if even n then n else n + 1)"

function binade :: "nat \<Rightarrow> rat \<Rightarrow> nat \<times> rat" where
  "binade e x = (if x < 2 ^ 24 then (e, x) else binade (e + 1) (x / 2))"
  by pat_completeness auto
termination
proof (relation "measure (\<lambda>(e, x). nat \<lceil>x\<rceil>)")
  show "wf (measure (\<lambda>(e, x). nat \<lceil>x\<rceil>))" by simp
next
  fix e :: nat and x :: rat
  assume large: "\<not> x < 2 ^ 24"
  then have "x / 2 + 1 \<le> x" by simp
  then have "\<lceil>x / 2\<rceil> < \<lceil>x\<rceil>" by linarith
  moreover have "0 < \<lceil>x\<rceil>" using large by (simp add: ceiling_less_iff not_less)
  ultimately show "((e + 1, x / 2), (e, x)) \<in> measure (\<lambda>(e, x). nat \<lceil>x\<rceil>)"
    by simp
qed

declare binade.simps [simp del]

definition float_round :: "bool \<Rightarrow> rat \<Rightarrow> float" where
  "float_round s q =
     (let (e, x) = binade 1 (q * 2 ^ 149);
          m = nat (round_half_even x);
          (e', m') = (if m = 2 ^ 24 then (e + 1, 2 ^ 23) else (e, m))
      in if 255 \<le> e' then \<lparr>sign = s, exponent = 255, fraction = 0\<rparr>
         else if m' < 2 ^ 23 then \<lparr>sign = s, exponent = 0, fraction = of_nat m'\<rparr>
         else \<lparr>sign = s, exponent = of_nat e', fraction = of_nat (m' - 2 ^ 23)\<rparr>)"

text \<open>\<open>static_cast<float>\<close> of an \<open>int64_t\<close>.\<close>

definition float_of_int64 :: "int64_t \<Rightarrow> float" where
  "float_of_int64 n = float_round (sint n < 0) (of_int \<bar>sint n\<bar>)"

text \<open>The literal \<open>0.\<close> converted to \<open>float\<close>.\<close>

definition float_zero :: float where
  "float_zero = \<lparr>sign = False, exponent = 0, fraction = 0\<rparr>"

text \<open>
  Division.  An invalid operation gives a quiet NaN, whose sign and payload C++ does not
  fix; the model returns the one with the top fraction bit alone.
\<close>

definition float_nan :: float where
  "float_nan = \<lparr>sign = False, exponent = 255, fraction = 2 ^ 22\<rparr>"

definition float_div :: "float \<Rightarrow> float \<Rightarrow> float" where
  "float_div x y =
     (let s = (sign x \<noteq> sign y) in
      if float_is_nan x \<or> float_is_nan y then float_nan
      else if float_is_inf x then
        (if float_is_inf y then float_nan else \<lparr>sign = s, exponent = 255, fraction = 0\<rparr>)
      else if float_is_inf y then \<lparr>sign = s, exponent = 0, fraction = 0\<rparr>
      else if float_magnitude y = 0 then
        (if float_magnitude x = 0 then float_nan
         else \<lparr>sign = s, exponent = 255, fraction = 0\<rparr>)
      else float_round s (float_magnitude x / float_magnitude y))"

text \<open>
  \<open>x > d\<close> for a \<open>float\<close> \<open>x\<close> and a finite \<open>double\<close> of value \<open>d\<close>: \<open>x\<close> is converted
  to \<open>double\<close>, which keeps its value, and a comparison with a NaN is false.
  \<open>double_0_01\<close> is the value of the literal \<open>0.01\<close>, the \<open>double\<close> nearest to 1/100.
\<close>

definition float_gt_double :: "float \<Rightarrow> rat \<Rightarrow> bool" where
  "float_gt_double x d =
     (\<not> float_is_nan x \<and> (if float_is_inf x then \<not> sign x else d < float_value x))"

definition double_0_01 :: rat where
  "double_0_01 = 5764607523034235 / 2 ^ 59"

subsection \<open>AlgorithmsCache (lines 69--121)\<close>

text \<open>
  The data members.  \<open>cache_mutex_\<close> carries no data; what the member functions do with
  it is recorded by the synchronisation traces further down.
\<close>

record 'a AlgorithmsCache =
  hash :: "(size_t, 'a) fmap"
  cache_hits :: int64_t
  cache_misses :: int64_t

text \<open>The constructor of line 72, with the member initialisers of lines 119 and 120.\<close>

definition AlgorithmsCache_init :: "'a AlgorithmsCache" where
  "AlgorithmsCache_init = \<lparr>hash = fmempty, cache_hits = 0, cache_misses = 0\<rparr>"

datatype error = PreconditionNotMet string

text \<open>
  Modelled from the spec: the macro \<open>PADDLE_ENFORCE_NE\<close> of paddle/phi/core/enforce.h,
  which is not part of the header.  \<open>PADDLE_ENFORCE_NE(a, b, err)\<close> fails with \<open>err\<close>
  when \<open>a\<close> equals \<open>b\<close> and does nothing otherwise; the result is the error raised,
  if any.
\<close>

definition PADDLE_ENFORCE_NE :: "'b \<Rightarrow> 'b \<Rightarrow> error \<Rightarrow> error option" where
  "PADDLE_ENFORCE_NE a b err = (if a \<noteq> b then None else Some err)"

text \<open>
  \<open>Get\<close> (lines 74--81).  \<open>hash_.find(key)\<close> is the lookup, \<open>hash_.end()\<close> is \<open>None\<close>.
  Past the check the key is present, where \<open>hash_[key]\<close> reads the stored value and
  inserts nothing.  The exception leaves the object as it was.
\<close>

definition Get :: "'a AlgorithmsCache \<Rightarrow> size_t \<Rightarrow> (error + 'a) \<times> 'a AlgorithmsCache" where
  "Get c key =
     (case PADDLE_ENFORCE_NE (fmlookup (hash c) key) None
             (PreconditionNotMet ''The key does not exist.'') of
        Some e \<Rightarrow> (Inl e, c)
      | None \<Rightarrow> (Inr (the (fmlookup (hash c) key)), c))"

text \<open>\<open>Find\<close> (lines 83--93).\<close>

definition Find :: "'a AlgorithmsCache \<Rightarrow> size_t \<Rightarrow> bool \<times> 'a AlgorithmsCache" where
  "Find c key =
     (if fmlookup (hash c) key \<noteq> None
      then (True, c\<lparr>cache_hits := cache_hits c + 1\<rparr>)
      else (False, c\<lparr>cache_misses := cache_misses c + 1\<rparr>))"

text \<open>\<open>Set\<close> (lines 95--98): \<open>hash_[key] = algo\<close> inserts the key or overwrites its value.\<close>

definition Set :: "'a AlgorithmsCache \<Rightarrow> size_t \<Rightarrow> 'a \<Rightarrow> 'a AlgorithmsCache" where
  "Set c key algo = c\<lparr>hash := fmupd key algo (hash c)\<rparr>"

definition CacheMisses :: "'a AlgorithmsCache \<Rightarrow> int64_t" where
  "CacheMisses c = cache_misses c"

definition CacheHits :: "'a AlgorithmsCache \<Rightarrow> int64_t" where
  "CacheHits c = cache_hits c"

text \<open>
  \<open>Size\<close> (line 114): the \<open>size_t\<close> returned by \<open>hash_.size()\<close>, the number of entries,
  converted to \<open>int64_t\<close>.
\<close>

definition Size :: "'a AlgorithmsCache \<Rightarrow> int64_t" where
  "Size c = of_nat (fcard (fmdom (hash c)))"

text \<open>\<open>CacheHitRate\<close> (lines 104--112).\<close>

definition CacheHitRate :: "'a AlgorithmsCache \<Rightarrow> float" where
  "CacheHitRate c =
     (let num_accesses = cache_hits c + cache_misses c
      in if num_accesses \<noteq> 0
         then float_div (float_of_int64 (cache_hits c)) (float_of_int64 num_accesses)
         else float_zero)"

text \<open>
  One call of a member function on a cache, for statements about every operation: what it
  delivers, a value or the exception it throws, and the object afterwards.
\<close>

datatype 'a cache_call =
  CallGet size_t | CallFind size_t | CallSet size_t 'a
| CallCacheMisses | CallCacheHits | CallCacheHitRate | CallSize

datatype 'a outcome =
  Algorithm 'a | Bool bool | Void | Int64 int64_t | Float float | Raised error

fun call :: "'a cache_call \<Rightarrow> 'a AlgorithmsCache \<Rightarrow> 'a outcome \<times> 'a AlgorithmsCache" where
  "call (CallGet key) c =
     (case Get c key of (Inl e, c') \<Rightarrow> (Raised e, c') | (Inr algo, c') \<Rightarrow> (Algorithm algo, c'))"
| "call (CallFind key) c = (case Find c key of (ret, c') \<Rightarrow> (Bool ret, c'))"
| "call (CallSet key algo) c = (Void, Set c key algo)"
| "call CallCacheMisses c = (Int64 (CacheMisses c), c)"
| "call CallCacheHits c = (Int64 (CacheHits c), c)"
| "call CallCacheHitRate c = (Float (CacheHitRate c), c)"
| "call CallSize c = (Int64 (Size c), c)"

subsection \<open>What each member function does with the mutex\<close>

text \<open>
  The events of one call, in program order: the constructor of a \<open>std::lock_guard\<close> on
  \<open>*cache_mutex_\<close> acquires the mutex, its destructor releases it at the end of the
  function or when the exception leaves it, and between them the data members are read
  and written.
\<close>

datatype member = Member_hash | Member_cache_hits | Member_cache_misses

datatype event = Acquire | Release | Read member | Write member

fun events :: "'a cache_call \<Rightarrow> 'a AlgorithmsCache \<Rightarrow> event list" where
  "events (CallGet key) c =
     [Acquire, Read Member_hash]
     @ (if fmlookup (hash c) key \<noteq> None then [Read Member_hash] else [])
     @ [Release]"
| "events (CallFind key) c =
     [Acquire, Read Member_hash]
     @ (if fmlookup (hash c) key \<noteq> None
        then [Read Member_cache_hits, Write Member_cache_hits]
        else [Read Member_cache_misses, Write Member_cache_misses])
     @ [Release]"
| "events (CallSet key algo) c = [Acquire, Write Member_hash, Release]"
| "events CallCacheMisses c = [Read Member_cache_misses]"
| "events CallCacheHits c = [Read Member_cache_hits]"
| "events CallCacheHitRate c =
     [Read Member_cache_hits, Read Member_cache_misses]
     @ (if cache_hits c + cache_misses c \<noteq> 0 then [Read Member_cache_hits] else [])"
| "events CallSize c = [Read Member_hash]"

text \<open>
  \<open>guarded held es\<close>: started with the mutex held or not, the events \<open>es\<close> acquire it
  only when it is not held, release it only when it is, touch a data member only while it
  is held, and end with it released.
\<close>

fun guarded :: "bool \<Rightarrow> event list \<Rightarrow> bool" where
  "guarded held [] = (\<not> held)"
| "guarded held (Acquire # es) = (\<not> held \<and> guarded True es)"
| "guarded held (Release # es) = (held \<and> guarded False es)"
| "guarded held (Read m # es) = (held \<and> guarded held es)"
| "guarded held (Write m # es) = (held \<and> guarded held es)"

text \<open>
  Threads are numbered.  A schedule is an interleaving of the events of several threads on
  one cache.  \<open>mutex_ok owner s\<close>: the schedule respects the mutex, which \<open>owner\<close> holds at
  the start: a thread acquires it only when it is free, and only its owner releases it.
  \<open>exclusive owner s\<close>: every access to a data member is made by the thread that holds the
  mutex at that moment.
\<close>

fun mutex_ok :: "nat option \<Rightarrow> (nat \<times> event) list \<Rightarrow> bool" where
  "mutex_ok owner [] = True"
| "mutex_ok owner ((t, Acquire) # s) = (owner = None \<and> mutex_ok (Some t) s)"
| "mutex_ok owner ((t, Release) # s) = (owner = Some t \<and> mutex_ok None s)"
| "mutex_ok owner ((t, Read m) # s) = mutex_ok owner s"
| "mutex_ok owner ((t, Write m) # s) = mutex_ok owner s"

fun exclusive :: "nat option \<Rightarrow> (nat \<times> event) list \<Rightarrow> bool" where
  "exclusive owner [] = True"
| "exclusive owner ((t, Acquire) # s) = exclusive (Some t) s"
| "exclusive owner ((t, Release) # s) = exclusive None s"
| "exclusive owner ((t, Read m) # s) = (owner = Some t \<and> exclusive owner s)"
| "exclusive owner ((t, Write m) # s) = (owner = Some t \<and> exclusive owner s)"

text \<open>The events of thread \<open>t\<close> in a schedule.\<close>

definition thread_events :: "nat \<Rightarrow> (nat \<times> event) list \<Rightarrow> event list" where
  "thread_events t s = map snd (filter (\<lambda>te. fst te = t) s)"

subsection \<open>AutoTuneCache (lines 123--197)\<close>

text \<open>
  The data members.  \<open>autotune_cache_mutex_\<close> carries no data; \<open>RegisterOrGet\<close> and
  \<open>Clean\<close> hold it for their whole body, the other member functions do not touch it.

  A \<open>std::unordered_map\<close> keeps the mapped value of each entry in a node of its own,
  and a reference to a mapped value stays good until that node is destroyed.  In this file
  a node of \<open>auto_tune_map_\<close> is created only by \<open>operator[]\<close> on line 140 (on
  line 142 the key is always present, and nothing is erased one by one) and destroyed
  only by \<open>clear()\<close> on line 150, which destroys all of them at once.  So
  between two calls of \<open>clear()\<close> a key has at most one node, and a node is identified
  by its key and by the number of calls of \<open>clear()\<close> made before it was created.  The
  last field of the record, \<open>cleared\<close>, is that number: it is no data member, it is
  what the model keeps of the heap, to tell the node of a key from the nodes that the same
  key had before.
\<close>

type_synonym AlgorithmsConfigKeyMap = "int64_t AlgorithmsCache"
type_synonym AlgorithmsTypeMap = "(string, AlgorithmsConfigKeyMap) fmap"

record AutoTuneCache =
  auto_tune_map :: AlgorithmsTypeMap
  total_cache_hits :: int64_t
  total_cache_misses :: int64_t
  total_size :: int64_t
  cleared :: nat

text \<open>
  \<open>Instance\<close> (lines 131--134) constructs the singleton on first use: an empty map and the
  member initialisers of lines 194--196.
\<close>

definition Instance :: AutoTuneCache where
  "Instance =
     \<lparr>auto_tune_map = fmempty, total_cache_hits = 0, total_cache_misses = 0, total_size = 0,
      cleared = 0\<rparr>"

text \<open>
  \<open>RegisterOrGet\<close> returns a reference to the mapped value in the node of the entry
  \<open>algo_type\<close>.  A reference is the identity of that node: \<open>Ref algo_type n\<close> is the
  node that the key \<open>algo_type\<close> got after \<open>n\<close> calls of \<open>clear()\<close>.  The object
  behind it exists while no further \<open>clear()\<close> has run and is then the mapped value of
  the key; after the next \<open>clear()\<close> the node is destroyed and the reference designates
  nothing, also when the key has been registered again (the new entry has a new node).
  \<open>deref\<close> reads the object behind a reference, \<open>assign\<close> writes it.
\<close>

datatype reference = Ref string nat

fun deref :: "AutoTuneCache \<Rightarrow> reference \<Rightarrow> AlgorithmsConfigKeyMap option" where
  "deref reg (Ref algo_type n) =
     (if n = cleared reg then fmlookup (auto_tune_map reg) algo_type else None)"

fun assign :: "AutoTuneCache \<Rightarrow> reference \<Rightarrow> AlgorithmsConfigKeyMap \<Rightarrow> AutoTuneCache" where
  "assign reg (Ref algo_type n) c = reg\<lparr>auto_tune_map := fmupd algo_type c (auto_tune_map reg)\<rparr>"

text \<open>
  \<open>RegisterOrGet\<close> (lines 136--143).  The reference returned on line 142 is to the node
  that the key has in the map at that moment: the one just created, or the one found.
\<close>

definition RegisterOrGet :: "AutoTuneCache \<Rightarrow> string \<Rightarrow> reference \<times> AutoTuneCache" where
  "RegisterOrGet reg algo_type =
     (let reg' =
        (if fmlookup (auto_tune_map reg) algo_type = None
         then reg\<lparr>auto_tune_map := fmupd algo_type AlgorithmsCache_init (auto_tune_map reg)\<rparr>
         else reg)
      in (Ref algo_type (cleared reg'), reg'))"

text \<open>
  \<open>Clean\<close> (lines 145--152).  \<open>clear()\<close> removes every entry and destroys its node.
\<close>

definition Clean :: "AutoTuneCache \<Rightarrow> float \<Rightarrow> AutoTuneCache" where
  "Clean reg miss_rate =
     (if float_gt_double miss_rate double_0_01
      then reg\<lparr>auto_tune_map := fmempty, cleared := cleared reg + 1\<rparr>
      else reg)"

text \<open>
  \<open>UpdateStatus\<close> (lines 154--170).  The loop body adds the numbers of one entry to the
  three local totals; the \<open>VLOG\<close> statement only reads.  The order in which a
  \<open>std::unordered_map\<close> is traversed is not specified; the model visits the entries in
  the order of their keys, and \<open>UpdateStatus_loop_any_order\<close> below shows that the order
  does not matter.
\<close>

fun UpdateStatus_loop ::
  "(string \<times> AlgorithmsConfigKeyMap) list \<Rightarrow> int64_t \<times> int64_t \<times> int64_t
    \<Rightarrow> int64_t \<times> int64_t \<times> int64_t" where
  "UpdateStatus_loop [] totals = totals"
| "UpdateStatus_loop (v # vs) (sz, hits, misses) =
     UpdateStatus_loop vs
       (sz + Size (snd v), hits + CacheHits (snd v), misses + CacheMisses (snd v))"

definition UpdateStatus :: "AutoTuneCache \<Rightarrow> AutoTuneCache" where
  "UpdateStatus reg =
     (case UpdateStatus_loop (sorted_list_of_fmap (auto_tune_map reg)) (0, 0, 0) of
        (sz, hits, misses) \<Rightarrow>
          reg\<lparr>total_size := sz, total_cache_hits := hits, total_cache_misses := misses\<rparr>)"

text \<open>The accessors of the registry (lines 172--188).\<close>

definition AutoTuneCache_Size :: "AutoTuneCache \<Rightarrow> int64_t" where
  "AutoTuneCache_Size reg = total_size reg"

definition AutoTuneCache_CacheHits :: "AutoTuneCache \<Rightarrow> int64_t" where
  "AutoTuneCache_CacheHits reg = total_cache_hits reg"

definition AutoTuneCache_CacheMisses :: "AutoTuneCache \<Rightarrow> int64_t" where
  "AutoTuneCache_CacheMisses reg = total_cache_misses reg"

definition AutoTuneCache_CacheHitRate :: "AutoTuneCache \<Rightarrow> float" where
  "AutoTuneCache_CacheHitRate reg =
     (let total_num_accesses = total_cache_hits reg + total_cache_misses reg
      in if total_num_accesses \<noteq> 0
         then float_div (float_of_int64 (total_cache_hits reg))
                (float_of_int64 total_num_accesses)
         else float_zero)"

text \<open>
  One call by a client of the registry: a member function of the registry, or a member
  function of a cache through a reference obtained earlier.  Using a reference whose
  node has been destroyed has no defined behaviour: the outcome \<open>Dangling\<close>.  A call
  through a good reference runs on the object in the node and leaves its result there.
\<close>

datatype registry_call =
  CallRegisterOrGet string | CallClean float | CallUpdateStatus
| CallTotalSize | CallTotalCacheHits | CallTotalCacheMisses | CallTotalCacheHitRate
| Through reference "int64_t cache_call"

datatype registry_outcome =
  Reference reference | Done | Total int64_t | Rate float
| Of_cache "int64_t outcome" | Dangling

fun registry_step :: "registry_call \<Rightarrow> AutoTuneCache \<Rightarrow> registry_outcome \<times> AutoTuneCache" where
  "registry_step (CallRegisterOrGet algo_type) reg =
     (case RegisterOrGet reg algo_type of (r, reg') \<Rightarrow> (Reference r, reg'))"
| "registry_step (CallClean miss_rate) reg = (Done, Clean reg miss_rate)"
| "registry_step CallUpdateStatus reg = (Done, UpdateStatus reg)"
| "registry_step CallTotalSize reg = (Total (AutoTuneCache_Size reg), reg)"
| "registry_step CallTotalCacheHits reg = (Total (AutoTuneCache_CacheHits reg), reg)"
| "registry_step CallTotalCacheMisses reg = (Total (AutoTuneCache_CacheMisses reg), reg)"
| "registry_step CallTotalCacheHitRate reg = (Rate (AutoTuneCache_CacheHitRate reg), reg)"
| "registry_step (Through r cl) reg =
     (case deref reg r of
        None \<Rightarrow> (Dangling, reg)
      | Some c \<Rightarrow> (case call cl c of (out, c') \<Rightarrow> (Of_cache out, assign reg r c')))"

text \<open>A sequence of calls: the registry after them, or nothing once a call is undefined.\<close>

fun registry_steps :: "registry_call list \<Rightarrow> AutoTuneCache \<Rightarrow> AutoTuneCache option" where
  "registry_steps [] reg = Some reg"
| "registry_steps (cl # cls) reg =
     (case registry_step cl reg of
        (Dangling, reg') \<Rightarrow> None
      | (out, reg') \<Rightarrow> registry_steps cls reg')"

text \<open>A call that empties the registry: \<open>Clean\<close> with a miss rate above the tolerance.\<close>

fun flushes :: "registry_call \<Rightarrow> bool" where
  "flushes (CallClean miss_rate) = float_gt_double miss_rate double_0_01"
| "flushes cl = False"

text \<open>
  The calls that a sequence of calls makes through one reference, in order, and the cache
  that a list of calls leaves behind.
\<close>

fun calls_through :: "reference \<Rightarrow> registry_call list \<Rightarrow> int64_t cache_call list" where
  "calls_through r [] = []"
| "calls_through r (Through r' cl # cls) =
     (if r' = r then cl # calls_through r cls else calls_through r cls)"
| "calls_through r (other # cls) = calls_through r cls"

fun call_list :: "'a cache_call list \<Rightarrow> 'a AlgorithmsCache \<Rightarrow> 'a AlgorithmsCache" where
  "call_list [] c = c"
| "call_list (cl # cls) c = call_list cls (snd (call cl c))"

subsection \<open>Example states\<close>

text \<open>
  A cache with one entry, a registry holding it as the family \<open>conv2d\<close>, the miss rates
  \<open>0.02f\<close> and \<open>0.005f\<close>, a schedule in which thread 1 runs \<open>Find\<close> of an absent key
  while thread 2 runs \<open>CacheMisses\<close>, and one in which thread 1 runs that \<open>Find\<close> and
  then thread 2 runs \<open>Set\<close>.
\<close>

definition example_cache :: AlgorithmsConfigKeyMap where
  "example_cache = \<lparr>hash = fmupd 5 7 fmempty, cache_hits = 1, cache_misses = 2\<rparr>"

definition example_registry :: AutoTuneCache where
  "example_registry =
     \<lparr>auto_tune_map = fmupd ''conv2d'' example_cache fmempty,
      total_cache_hits = 0, total_cache_misses = 0, total_size = 0, cleared = 0\<rparr>"

definition float_0_02 :: float where
  "float_0_02 = \<lparr>sign = False, exponent = 121, fraction = 2348810\<rparr>"

definition float_0_005 :: float where
  "float_0_005 = \<lparr>sign = False, exponent = 119, fraction = 2348810\<rparr>"

definition racing_schedule :: "(nat \<times> event) list" where
  "racing_schedule =
     [(1, Acquire), (1, Read Member_hash), (1, Read Member_cache_misses),
      (2, Read Member_cache_misses),
      (1, Write Member_cache_misses), (1, Release)]"

definition locked_schedule :: "(nat \<times> event) list" where
  "locked_schedule =
     [(1, Acquire), (1, Read Member_hash), (1, Read Member_cache_misses),
      (1, Write Member_cache_misses), (1, Release),
      (2, Acquire), (2, Write Member_hash), (2, Release)]"

text \<open>
  Sequences of calls on the registry; the registry after \<open>RegisterOrGet\<close>, \<open>Set\<close> and a
  flushing \<open>Clean\<close>; and the cache of the scenario \<open>Find\<close> (a miss), \<open>Set\<close>, \<open>Find\<close>
  (a hit).
\<close>

definition example_calls :: "registry_call list" where
  "example_calls =
     [Through (Ref ''conv2d'' 0) (CallFind 9), CallClean float_0_005,
      CallRegisterOrGet ''matmul'', Through (Ref ''matmul'' 0) (CallSet 9 4),
      Through (Ref ''conv2d'' 0) (CallSet 5 8)]"

definition flushed_registry :: AutoTuneCache where
  "flushed_registry =
     Clean (snd (registry_step (Through (Ref ''conv2d'' 0) (CallSet 5 7))
                   (snd (RegisterOrGet Instance ''conv2d''))))
       float_0_02"

definition scenario_cache :: AlgorithmsConfigKeyMap where
  "scenario_cache = snd (Find (Set (snd (Find AlgorithmsCache_init 5)) 5 7) 5)"

definition later_calls :: "registry_call list" where
  "later_calls =
     [Through (Ref ''conv2d'' 0) (CallFind 6), Through (Ref ''conv2d'' 0) (CallSet 6 9),
      CallRegisterOrGet ''matmul'', CallClean float_0_02]"

definition quiet_calls :: "registry_call list" where
  "quiet_calls =
     [Through (Ref ''conv2d'' 0) (CallSet 5 7), CallClean float_0_005, CallUpdateStatus]"

section \<open>Facts about the fingerprint\<close>

text \<open>
  The step of \<open>HashCombine\<close> on 64-bit words is the step on natural numbers reduced
  modulo \<open>2^64\<close>, and the recursion over the arguments and the loop over a vector are
  left folds of it.
\<close>

lemma shift_left_6: "push_bit 6 (seed :: size_t) = of_nat (unat seed * 2 ^ 6)"
  by (simp add: push_bit_eq_mult)

lemma shift_right_2: "drop_bit 2 (seed :: size_t) = of_nat (unat seed div 2 ^ 2)"
  by (simp add: drop_bit_eq_div word_arith_nat_div)

lemma of_nat_mod_size_t: "(of_nat (n mod 2 ^ 64) :: size_t) = of_nat n"
  by (simp add: word_unat_eq_iff unat_of_nat)

lemma mix_step:
  "seed XOR (hv + 0x9e3779b9 + push_bit 6 seed + drop_bit 2 seed) = spec_mix seed hv"
proof -
  have "of_nat (unat hv + 0x9e3779b9 + unat seed * 2 ^ 6 + unat seed div 2 ^ 2)
      = hv + 0x9e3779b9 + (of_nat (unat seed * 2 ^ 6) :: size_t)
        + of_nat (unat seed div 2 ^ 2)"
    by simp
  then show ?thesis
    unfolding spec_mix_def of_nat_mod_size_t shift_left_6 shift_right_2 by simp
qed

lemma HashCombine_foldl:
  "HashCombine h seed args = foldl (\<lambda>s a. spec_mix s (std_hash h a)) seed args"
  by (induction args arbitrary: seed) (simp_all add: mix_step)

lemma vec_loop_foldl:
  "vec_loop h vec seed = foldl (\<lambda>s a. spec_mix s (std_hash h a)) seed vec"
  by (induction vec arbitrary: seed) (simp_all add: mix_step)

lemma std_hash_spec_hash: "std_hash h a = spec_hash h a"
proof (induction a)
  case (Scalar x)
  show ?case by simp
next
  case (Vec xs)
  have "foldl (\<lambda>s a. spec_mix s (std_hash h a)) s xs
      = foldl (\<lambda>s a. spec_mix s (spec_hash h a)) s xs" for s
    using Vec by (intro foldl_cong) simp_all
  then show ?case by (simp add: vec_loop_foldl)
qed

section \<open>Facts about AlgorithmsCache\<close>

text \<open>What \<open>Get\<close>, \<open>Find\<close> and \<open>Set\<close> return and what they leave of the cache.\<close>

lemma Get_present: "fmlookup (hash c) k = Some v \<Longrightarrow> Get c k = (Inr v, c)"
  by (simp add: Get_def PADDLE_ENFORCE_NE_def)

lemma Get_absent:
  "fmlookup (hash c) k = None \<Longrightarrow> Get c k = (Inl (PreconditionNotMet ''The key does not exist.''), c)"
  by (simp add: Get_def PADDLE_ENFORCE_NE_def)

lemma snd_Get [simp]: "snd (Get c k) = c"
  by (cases "fmlookup (hash c) k") (simp_all add: Get_present Get_absent)

lemma hash_Find [simp]: "hash (snd (Find c k)) = hash c"
  by (simp add: Find_def)

lemma hash_Set: "hash (Set c k v) = fmupd k v (hash c)"
  by (simp add: Set_def)

lemma snd_call:
  "snd (call cl c) =
     (case cl of CallFind k \<Rightarrow> snd (Find c k) | CallSet k v \<Rightarrow> Set c k v | _ \<Rightarrow> c)"
proof (cases cl)
  case (CallGet k)
  then show ?thesis
    by (cases "fmlookup (hash c) k") (simp_all add: Get_present Get_absent)
qed (simp_all split: prod.splits)

lemma sint_succ:
  fixes x :: int64_t
  assumes "sint x < 2 ^ 63 - 1"
  shows "sint (x + 1) = sint x + 1"
proof -
  have "- (2 ^ 63) \<le> sint x" using sint_ge [of x] by simp
  with assms show ?thesis
    by (simp add: sint_word_add signed_take_bit_int_eq_self)
qed

lemma fcard_fmdom_fmupd:
  "fcard (fmdom (fmupd k v m)) = (if fmlookup m k = None then fcard (fmdom m) + 1 else fcard (fmdom m))"
proof (cases "fmlookup m k")
  case None
  then have "k |\<notin>| fmdom m" by (rule fmdom_notI)
  with None show ?thesis by (simp add: fcard_finsert_disjoint)
next
  case (Some a)
  then have "k |\<in>| fmdom m" by (rule fmdomI)
  with Some show ?thesis by (simp add: fcard_finsert_if)
qed

lemma Get_Set: "Get (Set c k v) k = (Inr v, Set c k v)"
  by (simp add: Get_present hash_Set)

lemma Find_Set: "Find (Set c k v) k = (True, (Set c k v)\<lparr>cache_hits := cache_hits c + 1\<rparr>)"
  by (simp add: Find_def hash_Set) (simp add: Set_def)

lemma entries_Set:
  "fcard (fmdom (hash (Set c k v))) =
     (if fmlookup (hash c) k = None then fcard (fmdom (hash c)) + 1 else fcard (fmdom (hash c)))"
  by (simp add: Set_def fcard_fmdom_fmupd del: fmdom_fmupd)

lemma Size_Set:
  "Size (Set c k v) = (if fmlookup (hash c) k = None then Size c + 1 else Size c)"
  by (simp add: Size_def entries_Set)


section \<open>Facts about the mutex\<close>

text \<open>
  Critical sections compose, and a schedule that respects the mutex, in which every
  thread keeps its accesses inside its own critical sections, is exclusive.
\<close>

lemma guarded_append:
  "guarded held es \<Longrightarrow> guarded False fs \<Longrightarrow> guarded held (es @ fs)"
proof (induction es arbitrary: held)
  case Nil
  then show ?case by simp
next
  case (Cons e es)
  then show ?case by (cases e) auto
qed

lemma mutex_excludes:
  "mutex_ok owner s \<Longrightarrow> (\<And>t. guarded (owner = Some t) (thread_events t s)) \<Longrightarrow>
   exclusive owner s"
proof (induction s arbitrary: owner)
  case Nil
  then show ?case by simp
next
  case (Cons te s)
  obtain t e where te: "te = (t, e)" by (cases te)
  have mine: "guarded (owner = Some t) (e # thread_events t s)"
    using Cons.prems(2) [of t] by (simp add: te thread_events_def)
  have others: "guarded (owner = Some t') (thread_events t' s)" if "t' \<noteq> t" for t'
    using Cons.prems(2) [of t'] that by (simp add: te thread_events_def)
  show ?case
  proof (cases e)
    case Acquire
    with Cons.prems(1) te have free: "owner = None" and ok: "mutex_ok (Some t) s" by simp_all
    have "guarded (Some t = Some t') (thread_events t' s)" for t'
    proof (cases "t' = t")
      case True
      with mine Acquire show ?thesis by simp
    next
      case False
      with others [OF False] free show ?thesis by simp
    qed
    with Cons.IH [OF ok] Acquire te show ?thesis by simp
  next
    case Release
    with Cons.prems(1) te have own: "owner = Some t" and ok: "mutex_ok None s" by simp_all
    have "guarded (None = Some t') (thread_events t' s)" for t'
    proof (cases "t' = t")
      case True
      with mine Release show ?thesis by simp
    next
      case False
      with others [OF False] own show ?thesis by simp
    qed
    with Cons.IH [OF ok] Release te show ?thesis by simp
  next
    case (Read m)
    with Cons.prems(1) te have ok: "mutex_ok owner s" by simp
    from mine Read have own: "owner = Some t" by simp
    have "guarded (owner = Some t') (thread_events t' s)" for t'
    proof (cases "t' = t")
      case True
      with mine Read show ?thesis by auto
    next
      case False
      with others [OF False] show ?thesis by simp
    qed
    with Cons.IH [OF ok] Read te own show ?thesis by simp
  next
    case (Write m)
    with Cons.prems(1) te have ok: "mutex_ok owner s" by simp
    from mine Write have own: "owner = Some t" by simp
    have "guarded (owner = Some t') (thread_events t' s)" for t'
    proof (cases "t' = t")
      case True
      with mine Write show ?thesis by auto
    next
      case False
      with others [OF False] show ?thesis by simp
    qed
    with Cons.IH [OF ok] Write te own show ?thesis by simp
  qed
qed


lemma locking_call_guarded:
  "Acquire \<in> set (events cl c) \<Longrightarrow> guarded False (events cl c)"
  by (cases cl) (simp_all split: if_splits)

lemma locking_calls_guarded:
  "(\<forall>cc\<in>set calls. Acquire \<in> set (events (fst cc) (snd cc))) \<Longrightarrow>
   guarded False (concat (map (\<lambda>cc. events (fst cc) (snd cc)) calls))"
proof (induction calls)
  case Nil
  then show ?case by simp
next
  case (Cons cc calls)
  then have "guarded False (events (fst cc) (snd cc))"
    by (simp add: locking_call_guarded)
  moreover from Cons have "guarded False (concat (map (\<lambda>cc. events (fst cc) (snd cc)) calls))"
    by simp
  ultimately show ?case by (simp add: guarded_append)
qed

section \<open>Facts about \<open>float\<close>\<close>

text \<open>
  The comparison of \<open>Clean\<close> decides whether a \<open>float\<close> exceeds 1/100; rounding in the
  normal range has a relative error of at most \<open>2^-24\<close>; the conversion of a nonzero
  \<open>int64_t\<close> gives a normal number; and the quotient of two converted counters is within
  \<open>2^-22\<close> of the exact quotient.
\<close>

lemma fraction_bound: "unat (fraction x) < 2 ^ 23"
  using unsigned_less [of "fraction x", where 'a = nat] by simp

lemma float_magnitude_nonneg: "0 \<le> float_magnitude x"
  by (simp add: float_magnitude_def del: of_nat_unat)

text \<open>
  \<open>double_0_01\<close> has 53 significant bits at the unit \<open>2^-59\<close> and is less than half a
  unit away from 1/100: it is the \<open>double\<close> nearest to 1/100.
\<close>

lemma double_0_01_nearest:
  "double_0_01 = 5764607523034235 / 2 ^ 59 \<and> (2 :: nat) ^ 52 \<le> 5764607523034235
   \<and> (5764607523034235 :: nat) < 2 ^ 53 \<and> \<bar>double_0_01 - 1 / 100\<bar> < 1 / 2 ^ 60"
  by (simp add: double_0_01_def)

lemma double_0_01_above: "1 / 100 < double_0_01"
  by (simp add: double_0_01_def)

text \<open>No \<open>float\<close> lies above 1/100 and at or below the \<open>double\<close> nearest to 1/100.\<close>

lemma float_magnitude_above_tolerance:
  assumes "1 / 100 < float_magnitude x"
  shows "double_0_01 < float_magnitude x"
proof (cases "exponent x = 0")
  case True
  have "(of_nat (unat (fraction x)) :: rat) < 2 ^ 23"
    using fraction_bound [of x] by (metis of_nat_less_iff of_nat_numeral of_nat_power)
  then have "float_magnitude x < 2 ^ 23 / 2 ^ 149"
    by (simp add: float_magnitude_def True divide_strict_right_mono del: of_nat_unat)
  with assms show ?thesis by simp
next
  case False
  define M where "M = 2 ^ 23 + unat (fraction x)"
  define E where "E = unat (exponent x)"
  have mag: "float_magnitude x = of_nat M * 2 ^ E / 2 ^ 150"
    by (simp add: float_magnitude_def False M_def E_def del: of_nat_unat)
  have M: "M < 2 ^ 24" using fraction_bound [of x] by (simp add: M_def)
  show ?thesis
  proof (cases "E < 120")
    case True
    then have "(2::rat) ^ E \<le> 2 ^ 119" by (intro power_increasing) simp_all
    moreover have "(of_nat M :: rat) < 2 ^ 24"
      using M by (metis of_nat_less_iff of_nat_numeral of_nat_power)
    ultimately have "of_nat M * (2::rat) ^ E < 2 ^ 24 * 2 ^ 119"
      by (intro mult_less_le_imp_less) simp_all
    then have "float_magnitude x < 2 ^ 24 * 2 ^ 119 / 2 ^ 150"
      unfolding mag by (simp add: divide_strict_right_mono)
    with assms show ?thesis by simp
  next
    case False
    then obtain j where E: "E = 120 + j" by (metis le_Suc_ex not_less)
    define N where "N = M * 2 ^ j"
    have mag': "float_magnitude x = of_nat N / 2 ^ 30"
      by (simp add: mag E N_def power_add)
    from assms have "(2 ^ 30 :: rat) < 100 * of_nat N"
      unfolding mag' by (simp add: field_simps)
    then have "(2 ^ 30 :: nat) < 100 * N"
      by (metis (mono_tags, opaque_lifting) of_nat_less_iff of_nat_mult of_nat_numeral of_nat_power)
    then have "10737419 \<le> N" by simp
    then have "(10737419 :: rat) \<le> of_nat N"
      by (metis of_nat_le_iff of_nat_numeral)
    then have "(10737419 :: rat) / 2 ^ 30 \<le> float_magnitude x"
      unfolding mag' by (simp add: divide_right_mono)
    then show ?thesis by (simp add: double_0_01_def)
  qed
qed

lemma float_gt_tolerance:
  "float_gt_double x double_0_01 \<longleftrightarrow>
     \<not> float_is_nan x \<and> (if float_is_inf x then \<not> sign x else 1 / 100 < float_value x)"
proof -
  have "double_0_01 < float_value x \<longleftrightarrow> 1 / 100 < float_value x"
  proof (cases "sign x")
    case True
    then have "float_value x \<le> 0" using float_magnitude_nonneg [of x] by (simp add: float_value_def)
    then show ?thesis using double_0_01_above by simp
  next
    case False
    then show ?thesis
      using float_magnitude_above_tolerance [of x] double_0_01_above
      by (auto simp: float_value_def)
  qed
  then show ?thesis by (simp add: float_gt_double_def)
qed

lemma round_half_even_near: "\<bar>of_int (round_half_even x) - x\<bar> \<le> 1 / 2"
proof -
  have "of_int \<lfloor>x\<rfloor> \<le> x" "x < of_int \<lfloor>x\<rfloor> + 1" by linarith+
  then show ?thesis
    by (auto simp: round_half_even_def Let_def abs_le_iff)
qed

lemma round_half_even_lower: "of_int k \<le> x \<Longrightarrow> k \<le> round_half_even x"
proof -
  assume "of_int k \<le> x"
  then have "k \<le> \<lfloor>x\<rfloor>" by (simp add: le_floor_iff)
  then show ?thesis by (auto simp: round_half_even_def Let_def)
qed

lemma round_half_even_upper: "x < of_int k \<Longrightarrow> round_half_even x \<le> k"
proof -
  assume "x < of_int k"
  then have "\<lfloor>x\<rfloor> < k" by (simp add: floor_less_iff)
  then show ?thesis by (auto simp: round_half_even_def Let_def)
qed

lemma binade_props:
  "binade e x = (e', x') \<Longrightarrow>
   x' * 2 ^ e' = x * 2 ^ e \<and> e \<le> e' \<and> x' < 2 ^ 24 \<and> (2 ^ 23 \<le> x \<longrightarrow> 2 ^ 23 \<le> x')"
proof (induction e x rule: binade.induct)
  case (1 e x)
  show ?case
  proof (cases "x < 2 ^ 24")
    case True
    with "1.prems" show ?thesis by (subst (asm) binade.simps) simp
  next
    case False
    with "1.prems" have rec: "binade (e + 1) (x / 2) = (e', x')"
      by (subst (asm) binade.simps) simp
    from False have "2 ^ 23 \<le> x / 2" by simp
    with "1.IH" [OF False rec] show ?thesis by simp
  qed
qed


lemma float_round_normal:
  assumes lo: "1 / 2 ^ 126 \<le> q" and hi: "q \<le> 2 ^ 100"
  shows "sign (float_round s q) = s \<and> exponent (float_round s q) \<noteq> 0
    \<and> exponent (float_round s q) \<noteq> 255
    \<and> \<bar>float_magnitude (float_round s q) - q\<bar> \<le> q / 2 ^ 24"
proof -
  obtain e x where b: "binade 1 (q * 2 ^ 149) = (e, x)"
    by (cases "binade 1 (q * 2 ^ 149)")
  have x0: "2 ^ 23 \<le> q * 2 ^ 149"
  proof -
    have "(2 ^ 23 :: rat) = 1 / 2 ^ 126 * 2 ^ 149" by simp
    also have "\<dots> \<le> q * 2 ^ 149" using lo by (intro mult_right_mono) simp_all
    finally show ?thesis .
  qed
  from binade_props [OF b] x0
  have scale: "x * 2 ^ e = q * 2 ^ 150" and e1: "1 \<le> e" and xhi: "x < 2 ^ 24"
    and xlo: "2 ^ 23 \<le> x"
    by simp_all
  define m where "m = nat (round_half_even x)"
  have rlo: "2 ^ 23 \<le> round_half_even x"
    using round_half_even_lower [of "2 ^ 23" x] xlo by simp
  have rhi: "round_half_even x \<le> 2 ^ 24"
    using round_half_even_upper [of x "2 ^ 24"] xhi by simp
  have m_int: "int m = round_half_even x" using rlo by (simp add: m_def)
  have mlo: "2 ^ 23 \<le> m" and mhi: "m \<le> 2 ^ 24" using rlo rhi by (simp_all add: m_def le_nat_iff)
  have near: "\<bar>of_nat m - x\<bar> \<le> 1 / 2"
    using round_half_even_near [of x] m_int by (metis of_int_of_nat_eq)
  define e' where "e' = (if m = 2 ^ 24 then e + 1 else e)"
  define m' where "m' = (if m = 2 ^ 24 then 2 ^ 23 else m)"
  have m'lo: "2 ^ 23 \<le> m'" and m'hi: "m' < 2 ^ 24" using mlo mhi by (auto simp: m'_def)
  have same: "(of_nat m' :: rat) * 2 ^ e' = of_nat m * 2 ^ e"
    by (simp add: m'_def e'_def)
  have ebound: "e \<le> 227"
  proof -
    have "(2::rat) ^ 23 * 2 ^ e \<le> x * 2 ^ e" using xlo by (intro mult_right_mono) simp_all
    also have "\<dots> \<le> 2 ^ 100 * 2 ^ 150" unfolding scale using hi by (intro mult_right_mono) simp_all
    finally have "(2::rat) ^ e \<le> 2 ^ 227" by simp
    then show ?thesis using power_le_imp_le_exp [of "2::rat" e 227] by simp
  qed
  then have e'hi: "e' < 255" and e'lo: "1 \<le> e'" using e1 by (auto simp: e'_def)
  have res: "float_round s q =
      \<lparr>sign = s, exponent = of_nat e', fraction = of_nat (m' - 2 ^ 23)\<rparr>"
  proof -
    have "float_round s q =
       (if 255 \<le> e' then \<lparr>sign = s, exponent = 255, fraction = 0\<rparr>
        else if m' < 2 ^ 23 then \<lparr>sign = s, exponent = 0, fraction = of_nat m'\<rparr>
        else \<lparr>sign = s, exponent = of_nat e', fraction = of_nat (m' - 2 ^ 23)\<rparr>)"
      unfolding float_round_def b e'_def m'_def m_def by (simp add: Let_def)
    then show ?thesis using e'hi m'lo by simp
  qed
  have ue: "unat (of_nat e' :: 8 word) = e'"
    using e'hi by (simp add: unat_of_nat)
  have uf: "unat (of_nat (m' - 2 ^ 23) :: 23 word) = m' - 2 ^ 23"
    using m'hi by (simp add: unat_of_nat)
  have ne0: "(of_nat e' :: 8 word) \<noteq> 0"
  proof
    assume "(of_nat e' :: 8 word) = 0"
    then have "unat (of_nat e' :: 8 word) = 0" by simp
    with ue e'lo show False by simp
  qed
  have ne255: "(of_nat e' :: 8 word) \<noteq> 255"
  proof
    assume "(of_nat e' :: 8 word) = 255"
    then have "unat (of_nat e' :: 8 word) = unat (255 :: 8 word)" by simp
    with ue e'hi show False by simp
  qed
  have mag: "float_magnitude (float_round s q) = of_nat m * 2 ^ e / 2 ^ 150"
  proof -
    have "float_magnitude (float_round s q) = of_nat (2 ^ 23 + (m' - 2 ^ 23)) * 2 ^ e' / 2 ^ 150"
      unfolding res float_magnitude_def using ne0 ue uf by (simp del: of_nat_unat)
    also have "2 ^ 23 + (m' - 2 ^ 23) = m'" using m'lo by simp
    finally show ?thesis by (simp add: same)
  qed
  define c :: rat where "c = 2 ^ e / 2 ^ 150"
  have cpos: "0 < c" by (simp add: c_def)
  have mag_c: "float_magnitude (float_round s q) = of_nat m * c" by (simp add: mag c_def)
  have q_c: "q = x * c" using scale by (simp add: c_def)
  have "of_nat m * c - x * c = (of_nat m - x) * c" by (simp add: left_diff_distrib)
  then have "\<bar>of_nat m * c - x * c\<bar> = \<bar>of_nat m - x\<bar> * c"
    using cpos by (simp add: abs_mult)
  also have "\<dots> \<le> 1 / 2 * c"
    using near cpos by (intro mult_right_mono) simp_all
  also have "\<dots> = 2 ^ 23 * c / 2 ^ 24" by simp
  also have "\<dots> \<le> x * c / 2 ^ 24"
    using xlo cpos by (intro divide_right_mono mult_right_mono) simp_all
  finally have "\<bar>of_nat m * c - x * c\<bar> \<le> x * c / 2 ^ 24" .
  then have "\<bar>float_magnitude (float_round s q) - q\<bar> \<le> q / 2 ^ 24"
    using mag_c q_c by simp
  with res ne0 ne255 show ?thesis by simp
qed

lemma float_round_zero: "float_round s 0 = \<lparr>sign = s, exponent = 0, fraction = 0\<rparr>"
proof -
  have "binade 1 0 = (1, 0)" by (subst binade.simps) simp
  then show ?thesis by (simp add: float_round_def round_half_even_def)
qed

lemma float_magnitude_pos: "exponent x \<noteq> 0 \<Longrightarrow> 0 < float_magnitude x"
  by (simp add: float_magnitude_def del: of_nat_unat)

lemma sint_int64_range: "- (2 ^ 63) \<le> sint (n :: int64_t) \<and> sint n < 2 ^ 63"
  using sint_ge [of n] sint_lt [of n] by simp

lemma float_of_int64_nonzero:
  assumes "n \<noteq> 0"
  shows "sign (float_of_int64 n) = (sint n < 0) \<and> exponent (float_of_int64 n) \<noteq> 0
    \<and> exponent (float_of_int64 n) \<noteq> 255
    \<and> \<bar>float_magnitude (float_of_int64 n) - of_int \<bar>sint n\<bar>\<bar> \<le> of_int \<bar>sint n\<bar> / 2 ^ 24"
proof -
  from assms have "sint n \<noteq> 0" by (simp add: signed_eq_0_iff)
  then have "1 \<le> \<bar>sint n\<bar>" by linarith
  then have lo: "(1 :: rat) \<le> of_int \<bar>sint n\<bar>" by (metis of_int_1 of_int_le_iff)
  have "\<bar>sint n\<bar> \<le> 2 ^ 63" using sint_int64_range [of n] by linarith
  then have "(of_int \<bar>sint n\<bar> :: rat) \<le> of_int (2 ^ 63)" by (simp only: of_int_le_iff)
  then have hi: "(of_int \<bar>sint n\<bar> :: rat) \<le> 2 ^ 100" by simp
  have "(1 :: rat) / 2 ^ 126 \<le> 1" by simp
  with lo have lo': "1 / 2 ^ 126 \<le> (of_int \<bar>sint n\<bar> :: rat)" by linarith
  show ?thesis
    unfolding float_of_int64_def using float_round_normal [OF lo' hi] by blast
qed

lemma float_of_int64_zero: "float_of_int64 0 = float_zero"
  by (simp add: float_of_int64_def float_round_zero float_zero_def)


lemma quotient_accurate:
  fixes A B H N R :: rat
  assumes H: "0 \<le> H" and N: "0 < N"
    and A: "\<bar>A - H\<bar> \<le> H / 2 ^ 24" and B: "\<bar>B - N\<bar> \<le> N / 2 ^ 24"
    and R: "\<bar>R - A / B\<bar> \<le> A / B / 2 ^ 24"
  shows "\<bar>R - H / N\<bar> \<le> H / N / 2 ^ 22"
proof -
  define u :: rat where "u = 1 / 2 ^ 24"
  define t where "t = H / N"
  have t: "0 \<le> t" using H N by (simp add: t_def)
  have split: "(1 - u) * y \<le> x \<and> x \<le> (1 + u) * y" if "\<bar>x - y\<bar> \<le> y / 2 ^ 24" for x y :: rat
  proof -
    have eqs: "(1 - u) * y = y - y / 2 ^ 24" "(1 + u) * y = y + y / 2 ^ 24"
      by (simp_all add: u_def left_diff_distrib distrib_right)
    show ?thesis using that unfolding eqs by linarith
  qed
  have A1: "(1 - u) * H \<le> A" and A2: "A \<le> (1 + u) * H"
    using split [OF A] by simp_all
  have B1: "(1 - u) * N \<le> B" and B2: "B \<le> (1 + u) * N"
    using split [OF B] by simp_all
  have upos: "0 < 1 - u" by (simp add: u_def)
  have "0 \<le> (1 - u) * H" using upos H by simp
  with A1 have A0: "0 \<le> A" by linarith
  have Blo: "0 < (1 - u) * N" using upos N by simp
  then have B0: "0 < B" using B1 by linarith
  have Q0: "0 \<le> A / B" using A0 B0 by simp
  have R1: "(1 - u) * (A / B) \<le> R" and R2: "R \<le> (1 + u) * (A / B)"
    using split [OF R] by simp_all
  have hi0: "0 \<le> (1 + u) * H" using A0 A2 by linarith
  have "A / B \<le> ((1 + u) * H) / ((1 - u) * N)"
    using hi0 A2 Blo B1 by (rule frac_le)
  also have "\<dots> = (1 + u) / (1 - u) * t"
    by (simp add: t_def)
  finally have Qhi: "A / B \<le> (1 + u) / (1 - u) * t" .
  have "((1 - u) * H) / ((1 + u) * N) \<le> A / B"
    using A0 A1 B0 B2 by (rule frac_le)
  moreover have "((1 - u) * H) / ((1 + u) * N) = (1 - u) / (1 + u) * t"
    by (simp add: t_def)
  ultimately have Qlo: "(1 - u) / (1 + u) * t \<le> A / B" by simp
  have u1: "0 \<le> 1 + u" by (simp add: u_def)
  note R2
  also have "(1 + u) * (A / B) \<le> (1 + u) * ((1 + u) / (1 - u) * t)"
    using Qhi u1 by (rule mult_left_mono)
  also have "\<dots> = ((1 + u) * (1 + u) / (1 - u)) * t" by simp
  also have "\<dots> \<le> (1 + 4 * u) * t"
    using t by (intro mult_right_mono) (simp_all add: u_def)
  finally have up: "R \<le> (1 + 4 * u) * t" .
  have "(1 - 4 * u) * t \<le> ((1 - u) * (1 - u) / (1 + u)) * t"
    using t by (intro mult_right_mono) (simp_all add: u_def)
  also have "\<dots> = (1 - u) * ((1 - u) / (1 + u) * t)" by simp
  also have "\<dots> \<le> (1 - u) * (A / B)"
    using Qlo upos by (intro mult_left_mono) simp_all
  also have "\<dots> \<le> R" by (rule R1)
  finally have down: "(1 - 4 * u) * t \<le> R" .
  have "(1 + 4 * u) * t = t + t / 2 ^ 22" "(1 - 4 * u) * t = t - t / 2 ^ 22"
    by (simp_all add: u_def left_diff_distrib distrib_right)
  with up down have "\<bar>R - t\<bar> \<le> t / 2 ^ 22" by linarith
  then show ?thesis by (simp only: t_def)
qed

lemma float_div_finite:
  assumes "exponent x \<noteq> 255" "exponent y \<noteq> 255" "exponent y \<noteq> 0"
  shows "float_div x y = float_round (sign x \<noteq> sign y) (float_magnitude x / float_magnitude y)"
  using assms float_magnitude_pos [of y]
  by (simp add: float_div_def float_is_nan_def float_is_inf_def)

lemma relative_bounds:
  fixes x y :: rat
  assumes "\<bar>x - y\<bar> \<le> y / 2 ^ 24" "1 \<le> y" "y \<le> 2 ^ 63"
  shows "1 / 2 \<le> x \<and> x \<le> 2 ^ 64"
proof -
  have "y - y / 2 ^ 24 \<le> x \<and> x \<le> y + y / 2 ^ 24"
    using assms(1) unfolding abs_le_iff by linarith
  moreover have "y / 2 ^ 24 \<le> y / 2" using assms(2) by simp
  ultimately have "y / 2 \<le> x" "x \<le> y + y / 2" by linarith+
  with assms(2,3) show ?thesis by simp
qed

lemma hit_rate_accurate:
  fixes h n :: int64_t
  assumes h: "0 \<le> sint h" and n: "0 < sint n"
  shows "float_is_finite (float_div (float_of_int64 h) (float_of_int64 n))
    \<and> \<bar>float_value (float_div (float_of_int64 h) (float_of_int64 n))
         - of_int (sint h) / of_int (sint n)\<bar>
       \<le> of_int (sint h) / of_int (sint n) / 2 ^ 22"
proof -
  define H :: rat where "H = of_int (sint h)"
  define N :: rat where "N = of_int (sint n)"
  define A where "A = float_magnitude (float_of_int64 h)"
  define B where "B = float_magnitude (float_of_int64 n)"
  from n have n0: "n \<noteq> 0" by auto
  have N1: "1 \<le> N"
  proof -
    from n have "1 \<le> sint n" by linarith
    then have "(of_int 1 :: rat) \<le> of_int (sint n)" by (simp only: of_int_le_iff)
    then show ?thesis by (simp add: N_def del: of_int_sint)
  qed
  have Nhi: "N \<le> 2 ^ 63"
  proof -
    have "sint n \<le> 2 ^ 63" using sint_int64_range [of n] by simp
    then have "(of_int (sint n) :: rat) \<le> of_int (2 ^ 63)" by (simp only: of_int_le_iff)
    then show ?thesis by (simp add: N_def del: of_int_sint)
  qed
  from float_of_int64_nonzero [OF n0] n
  have bs: "\<not> sign (float_of_int64 n)" and be0: "exponent (float_of_int64 n) \<noteq> 0"
    and be: "exponent (float_of_int64 n) \<noteq> 255" and Bn: "\<bar>B - N\<bar> \<le> N / 2 ^ 24"
    by (simp_all add: B_def N_def del: of_int_sint)
  have Blo: "1 / 2 \<le> B" and Bhi: "B \<le> 2 ^ 64"
    using relative_bounds [OF Bn N1 Nhi] by simp_all
  show ?thesis
  proof (cases "h = 0")
    case True
    have z: "exponent float_zero \<noteq> 255" "float_magnitude float_zero = 0" "\<not> sign float_zero"
      by (simp_all add: float_zero_def float_magnitude_def)
    have "float_div (float_of_int64 h) (float_of_int64 n) = float_round (sign (float_of_int64 n)) 0"
      unfolding True float_of_int64_zero float_div_finite [OF z(1) be be0] using z by simp
    then show ?thesis
      by (simp add: float_round_zero float_is_finite_def float_value_def float_magnitude_def True)
  next
    case False
    have H1: "1 \<le> H"
    proof -
      from False have "sint h \<noteq> 0" by (simp add: signed_eq_0_iff)
      with h have "1 \<le> sint h" by linarith
      then have "(of_int 1 :: rat) \<le> of_int (sint h)" by (simp only: of_int_le_iff)
      then show ?thesis by (simp add: H_def del: of_int_sint)
    qed
    have Hhi: "H \<le> 2 ^ 63"
    proof -
      have "sint h \<le> 2 ^ 63" using sint_int64_range [of h] by simp
      then have "(of_int (sint h) :: rat) \<le> of_int (2 ^ 63)" by (simp only: of_int_le_iff)
      then show ?thesis by (simp add: H_def del: of_int_sint)
    qed
    from float_of_int64_nonzero [OF False] h
    have as: "\<not> sign (float_of_int64 h)" and ae: "exponent (float_of_int64 h) \<noteq> 255"
      and Ah: "\<bar>A - H\<bar> \<le> H / 2 ^ 24"
      by (simp_all add: A_def H_def del: of_int_sint)
    have Alo: "1 / 2 \<le> A" and Ahi: "A \<le> 2 ^ 64"
      using relative_bounds [OF Ah H1 Hhi] by simp_all
    have div: "float_div (float_of_int64 h) (float_of_int64 n) = float_round False (A / B)"
      using ae be be0 as bs by (simp add: float_div_finite A_def B_def)
    have B0: "0 < B" using Blo by linarith
    have "A / B \<le> 2 ^ 64 / (1 / 2)"
      by (rule frac_le) (use Ahi Blo in simp_all)
    moreover have "(2 :: rat) ^ 64 / (1 / 2) \<le> 2 ^ 100" by simp
    ultimately have qhi: "A / B \<le> 2 ^ 100" by (rule order_trans)
    have A0: "0 \<le> A" using Alo by linarith
    have "(1 / 2) / 2 ^ 64 \<le> A / B"
      by (rule frac_le [OF A0 Alo B0 Bhi])
    moreover have "(1 :: rat) / 2 ^ 126 \<le> (1 / 2) / 2 ^ 64" by simp
    ultimately have qlo: "1 / 2 ^ 126 \<le> A / B" by (rule order_trans [rotated])
    from float_round_normal [OF qlo qhi, of False]
    have rs: "\<not> sign (float_round False (A / B))"
      and rf: "exponent (float_round False (A / B)) \<noteq> 255"
      and Rq: "\<bar>float_magnitude (float_round False (A / B)) - A / B\<bar> \<le> A / B / 2 ^ 24"
      by simp_all
    have "0 \<le> H" "0 < N" using H1 N1 by linarith+
    from quotient_accurate [OF this Ah Bn Rq]
    show ?thesis
      using rs rf by (simp add: div float_is_finite_def float_value_def H_def N_def del: of_int_sint)
  qed
qed

lemma sint_add_small:
  fixes a b :: int64_t
  assumes "0 \<le> sint a" "0 \<le> sint b" "sint a + sint b < 2 ^ 63"
  shows "sint (a + b) = sint a + sint b"
  using assms by (simp add: sint_word_add signed_take_bit_int_eq_self)

lemma hit_rate_formula:
  fixes h m :: int64_t
  defines "rate \<equiv> (if h + m \<noteq> 0 then float_div (float_of_int64 h) (float_of_int64 (h + m))
                    else float_zero)"
  shows "(h + m = 0 \<longrightarrow> rate = float_zero \<and> float_value float_zero = 0)
   \<and> (h + m \<noteq> 0 \<longrightarrow>
        rate = float_div (float_of_int64 h) (float_of_int64 (h + m))
        \<and> float_is_finite (float_of_int64 (h + m))
        \<and> float_value (float_of_int64 (h + m)) \<noteq> 0)
   \<and> (0 \<le> sint h \<and> 0 \<le> sint m \<and> 0 < sint h + sint m \<and> sint h + sint m < 2 ^ 63 \<longrightarrow>
        float_is_finite rate
        \<and> \<bar>float_value rate - of_int (sint h) / of_int (sint h + sint m)\<bar>
           \<le> of_int (sint h) / of_int (sint h + sint m) / 2 ^ 22)"
proof -
  have zero: "float_value float_zero = 0"
    by (simp add: float_zero_def float_value_def float_magnitude_def)
  have divisor: "float_is_finite (float_of_int64 (h + m))
        \<and> float_value (float_of_int64 (h + m)) \<noteq> 0" if "h + m \<noteq> 0"
  proof -
    from float_of_int64_nonzero [OF that]
    have e: "exponent (float_of_int64 (h + m)) \<noteq> 0" "exponent (float_of_int64 (h + m)) \<noteq> 255"
      by simp_all
    from float_magnitude_pos [OF e(1)] e(2) show ?thesis
      by (simp add: float_is_finite_def float_value_def)
  qed
  have accurate: "float_is_finite rate
        \<and> \<bar>float_value rate - of_int (sint h) / of_int (sint h + sint m)\<bar>
           \<le> of_int (sint h) / of_int (sint h + sint m) / 2 ^ 22"
    if "0 \<le> sint h" "0 \<le> sint m" "0 < sint h + sint m" "sint h + sint m < 2 ^ 63"
  proof -
    have sum: "sint (h + m) = sint h + sint m" using that by (simp add: sint_add_small)
    then have "sint (h + m) \<noteq> 0" using that by simp
    then have nz: "h + m \<noteq> 0" by auto
    have "0 < sint (h + m)" using that sum by simp
    from hit_rate_accurate [OF that(1) this] show ?thesis
      unfolding rate_def sum using nz by simp
  qed
  show ?thesis using zero divisor accurate by (simp add: rate_def)
qed

text \<open>Exact values, for the examples.\<close>

lemma binade_exact:
  "2 ^ 23 \<le> m \<Longrightarrow> m < 2 ^ 24 \<Longrightarrow> binade e (of_nat m * 2 ^ k) = (e + k, of_nat m)"
proof (induction k arbitrary: e)
  case 0
  then have "(of_nat m :: rat) < 2 ^ 24" by (metis of_nat_less_iff of_nat_numeral of_nat_power)
  then show ?case by (subst binade.simps) simp
next
  case (Suc k)
  from Suc.prems have "(2 ^ 23 :: rat) \<le> of_nat m" by (metis of_nat_le_iff of_nat_numeral of_nat_power)
  moreover have "(1 :: rat) \<le> 2 ^ k" by simp
  ultimately have "(2 ^ 23 :: rat) * 1 \<le> of_nat m * 2 ^ k" by (intro mult_mono) simp_all
  then have big: "\<not> (of_nat m * 2 ^ Suc k :: rat) < 2 ^ 24" by simp
  have "binade e (of_nat m * 2 ^ Suc k) = binade (e + 1) (of_nat m * 2 ^ Suc k / 2)"
    using big by (subst binade.simps) simp
  also have "\<dots> = (e + Suc k, of_nat m)"
    using Suc.IH [OF Suc.prems, of "e + 1"] by simp
  finally show ?case .
qed

lemma round_half_even_of_nat: "round_half_even (of_nat m) = int m"
proof -
  have "(of_nat m :: rat) = of_int (int m)" by simp
  then have "\<lfloor>of_nat m :: rat\<rfloor> = int m" by (metis floor_of_int)
  then show ?thesis by (simp add: round_half_even_def)
qed

text \<open>A number that has the form of a normal \<open>float\<close> is rounded to that \<open>float\<close>.\<close>

lemma float_round_exact:
  assumes "2 ^ 23 \<le> m" "m < 2 ^ 24" "e < 254"
  shows "float_round s (of_nat m * 2 ^ Suc e / 2 ^ 150) =
     \<lparr>sign = s, exponent = of_nat (Suc e), fraction = of_nat (m - 2 ^ 23)\<rparr>"
proof -
  have "of_nat m * 2 ^ Suc e / 2 ^ 150 * 2 ^ 149 = (of_nat m * 2 ^ e :: rat)" by simp
  then have b: "binade 1 (of_nat m * 2 ^ Suc e / 2 ^ 150 * 2 ^ 149) = (Suc e, of_nat m)"
    using binade_exact [OF assms(1,2), of 1 e] by simp
  show ?thesis
    unfolding float_round_def b using assms by (simp add: round_half_even_of_nat)
qed

lemma float_of_int64_1: "float_of_int64 1 = \<lparr>sign = False, exponent = 127, fraction = 0\<rparr>"
  using float_round_exact [of "2 ^ 23" 126 False] by (simp add: float_of_int64_def)

lemma float_of_int64_2: "float_of_int64 2 = \<lparr>sign = False, exponent = 128, fraction = 0\<rparr>"
  using float_round_exact [of "2 ^ 23" 127 False] by (simp add: float_of_int64_def)

lemma float_div_1_2:
  "float_div \<lparr>sign = False, exponent = 127, fraction = 0\<rparr>
     \<lparr>sign = False, exponent = 128, fraction = 0\<rparr>
   = \<lparr>sign = False, exponent = 126, fraction = 0\<rparr>"
  using float_round_exact [of "2 ^ 23" 125 False]
  by (simp add: float_div_def float_is_nan_def float_is_inf_def float_magnitude_def)

lemma float_0_02_flushes: "float_gt_double float_0_02 double_0_01"
  by (simp add: float_gt_double_def float_0_02_def float_is_nan_def float_is_inf_def
      float_value_def float_magnitude_def double_0_01_def)

lemma float_0_005_keeps: "\<not> float_gt_double float_0_005 double_0_01"
  by (simp add: float_gt_double_def float_0_005_def float_is_nan_def float_is_inf_def
      float_value_def float_magnitude_def double_0_01_def)

lemma float_0_02_value: "float_is_finite float_0_02 \<and> float_value float_0_02 = 5368709 / 268435456"
  by (simp add: float_0_02_def float_is_finite_def float_value_def float_magnitude_def)

lemma float_0_005_value: "float_is_finite float_0_005 \<and> float_value float_0_005 = 5368709 / 1073741824"
  by (simp add: float_0_005_def float_is_finite_def float_value_def float_magnitude_def)

section \<open>Facts about AutoTuneCache\<close>

text \<open>
  The loop of \<open>UpdateStatus\<close> computes sums that do not depend on the order of the
  entries; only \<open>UpdateStatus\<close> changes the totals; and the object behind a reference is
  changed by the calls made through that reference and by no other call, as long as no call
  flushes the registry.
\<close>

lemma UpdateStatus_loop_sums:
  "UpdateStatus_loop vs (sz, hits, misses) =
     (sz + sum_list (map (\<lambda>v. Size (snd v)) vs),
      hits + sum_list (map (\<lambda>v. CacheHits (snd v)) vs),
      misses + sum_list (map (\<lambda>v. CacheMisses (snd v)) vs))"
  by (induction vs arbitrary: sz hits misses) (simp_all add: add.assoc)

lemma UpdateStatus_loop_any_order:
  assumes "distinct xs" "distinct ys" "set xs = set ys"
  shows "UpdateStatus_loop xs totals = UpdateStatus_loop ys totals"
proof -
  obtain sz hits misses where t: "totals = (sz, hits, misses)" by (cases totals)
  show ?thesis
    using assms unfolding t UpdateStatus_loop_sums
    by (simp add: sum_list_distinct_conv_sum_set)
qed

lemma distinct_sorted_list_of_fmap: "distinct (sorted_list_of_fmap m)"
  unfolding sorted_list_of_fmap_def
proof -
  have "distinct (sorted_list_of_fset (fmdom m))"
    by (simp add: sorted_list_of_fset.rep_eq)
  then show "distinct (map (\<lambda>k. (k, the (fmlookup m k))) (sorted_list_of_fset (fmdom m)))"
    by (simp add: distinct_map inj_on_def)
qed

lemma set_sorted_list_of_fmap: "set (sorted_list_of_fmap m) = fset (fset_of_fmap m)"
proof (rule set_eqI)
  fix p :: "'a \<times> 'b"
  obtain k v where p: "p = (k, v)" by (cases p)
  have "p \<in> set (sorted_list_of_fmap m) \<longleftrightarrow> fmlookup m k = Some v"
    unfolding p sorted_list_of_fmap_def
    by (auto simp: fmlookup_dom_iff)
  then show "p \<in> set (sorted_list_of_fmap m) \<longleftrightarrow> p \<in> fset (fset_of_fmap m)"
    by (simp add: p)
qed

lemma UpdateStatus_totals:
  "UpdateStatus reg =
     reg\<lparr>total_size := (\<Sum>v\<in>fset (fset_of_fmap (auto_tune_map reg)). Size (snd v)),
         total_cache_hits := (\<Sum>v\<in>fset (fset_of_fmap (auto_tune_map reg)). CacheHits (snd v)),
         total_cache_misses := (\<Sum>v\<in>fset (fset_of_fmap (auto_tune_map reg)). CacheMisses (snd v))\<rparr>"
  by (simp add: UpdateStatus_def UpdateStatus_loop_sums sum_list_distinct_conv_sum_set
      distinct_sorted_list_of_fmap set_sorted_list_of_fmap)

lemma totals_registry_step:
  "cl \<noteq> CallUpdateStatus \<Longrightarrow>
   total_size (snd (registry_step cl reg)) = total_size reg
   \<and> total_cache_hits (snd (registry_step cl reg)) = total_cache_hits reg
   \<and> total_cache_misses (snd (registry_step cl reg)) = total_cache_misses reg"
proof (cases cl)
  case (Through r c)
  obtain n g where "r = Ref n g" by (cases r)
  with Through show ?thesis
    by (simp split: option.splits prod.splits)
qed (simp_all add: RegisterOrGet_def Clean_def)

lemma totals_registry_steps:
  "registry_steps cls reg = Some reg' \<Longrightarrow> CallUpdateStatus \<notin> set cls \<Longrightarrow>
   total_size reg' = total_size reg
   \<and> total_cache_hits reg' = total_cache_hits reg
   \<and> total_cache_misses reg' = total_cache_misses reg"
proof (induction cls arbitrary: reg)
  case Nil
  then show ?case by simp
next
  case (Cons cl cls)
  obtain out reg1 where s: "registry_step cl reg = (out, reg1)"
    by (cases "registry_step cl reg")
  with Cons.prems have run: "registry_steps cls reg1 = Some reg'"
    by (cases out) simp_all
  from Cons.prems have "cl \<noteq> CallUpdateStatus" by auto
  from totals_registry_step [OF this, of reg] s
  have "total_size reg1 = total_size reg \<and> total_cache_hits reg1 = total_cache_hits reg
    \<and> total_cache_misses reg1 = total_cache_misses reg" by simp
  moreover from Cons.IH [OF run] Cons.prems
  have "total_size reg' = total_size reg1 \<and> total_cache_hits reg' = total_cache_hits reg1
    \<and> total_cache_misses reg' = total_cache_misses reg1" by simp
  ultimately show ?case by simp
qed


lemma hash_call:
  "hash (snd (call cl c)) = (case cl of CallSet k v \<Rightarrow> fmupd k v (hash c) | _ \<Rightarrow> hash c)"
  by (cases cl) (simp_all add: snd_call hash_Set del: call.simps)

lemma RegisterOrGet_present:
  "fmlookup (auto_tune_map reg) name \<noteq> None \<Longrightarrow>
   RegisterOrGet reg name = (Ref name (cleared reg), reg)"
  by (auto simp: RegisterOrGet_def)

lemma RegisterOrGet_absent:
  "fmlookup (auto_tune_map reg) name = None \<Longrightarrow>
   RegisterOrGet reg name =
     (Ref name (cleared reg),
      reg\<lparr>auto_tune_map := fmupd name AlgorithmsCache_init (auto_tune_map reg)\<rparr>)"
  by (simp add: RegisterOrGet_def)

lemma fst_RegisterOrGet: "fst (RegisterOrGet reg name) = Ref name (cleared reg)"
  by (simp add: RegisterOrGet_def Let_def)

lemma cleared_RegisterOrGet: "cleared (snd (RegisterOrGet reg name)) = cleared reg"
  by (simp add: RegisterOrGet_def Let_def)

lemma registry_step_Through:
  "registry_step (Through r cl) reg =
     (case deref reg r of
        None \<Rightarrow> (Dangling, reg)
      | Some c \<Rightarrow> (Of_cache (fst (call cl c)), assign reg r (snd (call cl c))))"
  by (simp split: option.splits prod.splits)

lemma deref_Some:
  "deref reg r = Some c \<longleftrightarrow>
     (\<exists>n. r = Ref n (cleared reg) \<and> fmlookup (auto_tune_map reg) n = Some c)"
  by (cases r) auto

lemma deref_assign:
  "deref reg r \<noteq> None \<Longrightarrow>
   deref (assign reg r c') r' = (if r' = r then Some c' else deref reg r')"
  by (cases r; cases r') (auto split: if_splits)

lemma cleared_assign: "cleared (assign reg r c) = cleared reg"
  by (cases r) simp

lemma cleared_registry_step:
  "\<not> flushes cl \<Longrightarrow> cleared (snd (registry_step cl reg)) = cleared reg"
proof (cases cl)
  case (Through r c)
  then show ?thesis
    unfolding Through registry_step_Through
    by (simp add: cleared_assign split: option.splits)
next
  case (CallRegisterOrGet name)
  then show ?thesis by (simp add: case_prod_unfold cleared_RegisterOrGet)
qed (simp_all add: Clean_def UpdateStatus_def split: prod.splits)

text \<open>
  What one call that does not flush leaves behind a good reference: the result of the call
  where it is made through that reference, the same object otherwise.
\<close>

lemma registry_step_object:
  assumes "deref reg r = Some c" "\<not> flushes cl" "fst (registry_step cl reg) \<noteq> Dangling"
  shows "deref (snd (registry_step cl reg)) r = Some (call_list (calls_through r [cl]) c)"
proof (cases cl)
  case (CallRegisterOrGet name)
  from assms(1) obtain n where r: "r = Ref n (cleared reg)"
    and c: "fmlookup (auto_tune_map reg) n = Some c"
    unfolding deref_Some by blast
  show ?thesis
  proof (cases "fmlookup (auto_tune_map reg) name")
    case None
    with c have "name \<noteq> n" by auto
    with None c show ?thesis
      unfolding CallRegisterOrGet r by (simp add: RegisterOrGet_absent)
  next
    case (Some c1)
    with c show ?thesis
      unfolding CallRegisterOrGet r by (simp add: RegisterOrGet_present)
  qed
next
  case (CallClean x)
  with assms(1,2) show ?thesis by (simp add: Clean_def)
next
  case CallUpdateStatus
  from assms(1) obtain n where r: "r = Ref n (cleared reg)"
    and c: "fmlookup (auto_tune_map reg) n = Some c"
    unfolding deref_Some by blast
  from c show ?thesis
    unfolding CallUpdateStatus r by (simp add: UpdateStatus_def split: prod.splits)
next
  case (Through r' cl')
  from assms(3) obtain c1 where c1: "deref reg r' = Some c1"
    unfolding Through registry_step_Through by (cases "deref reg r'") simp_all
  then have good: "deref reg r' \<noteq> None" by simp
  show ?thesis
  proof (cases "r' = r")
    case True
    with c1 assms(1) have "c1 = c" by simp
    with c1 True show ?thesis
      unfolding Through registry_step_Through
      using deref_assign [OF good, of "snd (call cl' c)" r]
      by (simp del: call.simps deref.simps assign.simps)
  next
    case False
    with c1 assms(1) show ?thesis
      unfolding Through registry_step_Through
      using deref_assign [OF good, of "snd (call cl' c1)" r]
      by (simp del: call.simps deref.simps assign.simps)
  qed
qed (use assms(1) in simp_all)

lemma registry_steps_object:
  assumes "registry_steps cls reg = Some reg'" "deref reg r = Some c"
    and "\<forall>cl\<in>set cls. \<not> flushes cl"
  shows "deref reg' r = Some (call_list (calls_through r cls) c)"
  using assms
proof (induction cls arbitrary: reg c)
  case Nil
  then show ?case by simp
next
  case (Cons cl cls)
  obtain out reg1 where s: "registry_step cl reg = (out, reg1)"
    by (cases "registry_step cl reg")
  with Cons.prems(1) have defined: "out \<noteq> Dangling"
    and run: "registry_steps cls reg1 = Some reg'"
    by (cases out; simp)+
  from Cons.prems(3) have quiet: "\<not> flushes cl" by simp
  from registry_step_object [OF Cons.prems(2) quiet] s defined
  have object: "deref reg1 r = Some (call_list (calls_through r [cl]) c)" by simp
  from Cons.IH [OF run object] Cons.prems(3)
  have "deref reg' r
      = Some (call_list (calls_through r cls) (call_list (calls_through r [cl]) c))"
    by simp
  moreover have "call_list (calls_through r cls) (call_list (calls_through r [cl]) c)
      = call_list (calls_through r (cl # cls)) c"
    by (cases cl) (simp_all del: call.simps)
  ultimately show ?case by simp
qed

lemma cleared_registry_steps:
  assumes "registry_steps cls reg = Some reg'" "\<forall>cl\<in>set cls. \<not> flushes cl"
  shows "cleared reg' = cleared reg"
  using assms
proof (induction cls arbitrary: reg)
  case Nil
  then show ?case by simp
next
  case (Cons cl cls)
  obtain out reg1 where s: "registry_step cl reg = (out, reg1)"
    by (cases "registry_step cl reg")
  with Cons.prems(1) have run: "registry_steps cls reg1 = Some reg'"
    by (cases out) simp_all
  from Cons.prems(2) have "\<not> flushes cl" by simp
  from cleared_registry_step [OF this, of reg] s have "cleared reg1 = cleared reg" by simp
  with Cons.IH [OF run] Cons.prems(2) show ?case by simp
qed

text \<open>A key of a cache keeps its value across calls that do not set it.\<close>

lemma call_list_keeps_key:
  "\<forall>cl\<in>set cs. \<forall>v'. cl \<noteq> CallSet k v' \<Longrightarrow>
   fmlookup (hash (call_list cs c)) k = fmlookup (hash c) k"
proof (induction cs arbitrary: c)
  case Nil
  show ?case by simp
next
  case (Cons cl cs)
  from Cons.prems have "\<And>v'. cl \<noteq> CallSet k v'" by simp
  then have "fmlookup (hash (snd (call cl c))) k = fmlookup (hash c) k"
    by (cases cl) (auto simp: hash_call simp del: call.simps)
  with Cons.IH [of "snd (call cl c)"] Cons.prems show ?case
    by (simp del: call.simps)
qed

lemma calls_through_no_Set:
  "\<forall>cl\<in>set cls. \<forall>v'. cl \<noteq> Through r (CallSet k v') \<Longrightarrow>
   \<forall>cl\<in>set (calls_through r cls). \<forall>v'. cl \<noteq> CallSet k v'"
proof (induction cls)
  case Nil
  show ?case by simp
next
  case (Cons cl cls)
  then show ?case by (cases cl) auto
qed

lemma fresh_cache:
  "Size (AlgorithmsCache_init :: 'a AlgorithmsCache) = 0
   \<and> CacheHits (AlgorithmsCache_init :: 'a AlgorithmsCache) = 0
   \<and> CacheMisses (AlgorithmsCache_init :: 'a AlgorithmsCache) = 0"
  by (simp add: AlgorithmsCache_init_def Size_def CacheHits_def CacheMisses_def fcard_fempty)

lemma deref_RegisterOrGet:
  "deref (snd (RegisterOrGet reg name)) (fst (RegisterOrGet reg name)) =
     (case fmlookup (auto_tune_map reg) name of
        None \<Rightarrow> Some AlgorithmsCache_init | Some c \<Rightarrow> Some c)"
  by (cases "fmlookup (auto_tune_map reg) name")
     (simp_all add: RegisterOrGet_absent RegisterOrGet_present)

lemma scenario_cache_counters:
  "cache_hits scenario_cache = 1 \<and> cache_misses scenario_cache = 1"
  by (simp add: scenario_cache_def Find_def Set_def AlgorithmsCache_init_def)

lemma UpdateStatus_example:
  "UpdateStatus example_registry =
     example_registry\<lparr>total_size := 1, total_cache_hits := 1, total_cache_misses := 2\<rparr>"
  by code_simp

lemma sint_sum:
  fixes f :: "'b \<Rightarrow> int64_t"
  assumes "finite S" "\<forall>x\<in>S. 0 \<le> sint (f x)" "(\<Sum>x\<in>S. sint (f x)) < 2 ^ 63"
  shows "sint (\<Sum>x\<in>S. f x) = (\<Sum>x\<in>S. sint (f x))"
  using assms
proof (induction S rule: finite_induct)
  case empty
  show ?case by simp
next
  case (insert x F)
  have fx: "0 \<le> sint (f x)" using insert.prems(1) by simp
  have nonneg: "0 \<le> (\<Sum>y\<in>F. sint (f y))"
    using insert.prems(1) by (intro sum_nonneg) simp
  have total: "sint (f x) + (\<Sum>y\<in>F. sint (f y)) < 2 ^ 63"
    using insert.prems(2) insert.hyps by simp
  then have "(\<Sum>y\<in>F. sint (f y)) < 2 ^ 63" using fx by linarith
  with insert.IH insert.prems(1) have IH: "sint (\<Sum>y\<in>F. f y) = (\<Sum>y\<in>F. sint (f y))"
    by simp
  have "sint (f x + (\<Sum>y\<in>F. f y)) = sint (f x) + sint (\<Sum>y\<in>F. f y)"
    using fx nonneg total by (intro sint_add_small) (simp_all add: IH)
  then show ?case using insert.hyps by (simp add: IH)
qed

lemma fset_of_fmap_single: "fset (fset_of_fmap (fmupd k v fmempty)) = {(k, v)}"
proof (rule set_eqI)
  fix p :: "'a \<times> 'b"
  obtain a b where p: "p = (a, b)" by (cases p)
  show "p \<in> fset (fset_of_fmap (fmupd k v fmempty)) \<longleftrightarrow> p \<in> {(k, v)}"
    unfolding p by (auto simp: fset_of_fmap_iff' split: if_splits)
qed

lemma example_entries:
  "fset (fset_of_fmap (auto_tune_map example_registry)) = {(''conv2d'', example_cache)}"
  by (simp add: example_registry_def fset_of_fmap_single)

lemma example_cache_numbers:
  "Size example_cache = 1 \<and> CacheHits example_cache = 1 \<and> CacheMisses example_cache = 2"
  by (simp add: Size_def CacheHits_def CacheMisses_def example_cache_def fcard_fmdom_fmupd
      fcard_fempty del: fmdom_fmupd)


section \<open>The claims\<close>

text \<open>
  C1.  After \<open>Set(k, v)\<close> on a cache, \<open>Find(k)\<close> returns true and \<open>Get(k)\<close> returns
  \<open>v\<close> without failing, at once and after the \<open>Find\<close>.  For a cache of the registry
  reached through a reference this still holds after any further calls on the registry and
  its caches, as long as none of them is a \<open>Clean\<close> that flushes or another \<open>Set\<close> of
  \<open>k\<close> on the same cache.
\<close>

theorem Set_then_Find_and_Get:
  "fst (Find (Set c k v) k) = True
   \<and> fst (Get (Set c k v) k) = Inr v
   \<and> fst (Get (snd (Find (Set c k v) k)) k) = Inr v
   \<and> (fst (registry_step (Through r (CallSet k a)) reg) \<noteq> Dangling
        \<and> registry_steps cls (snd (registry_step (Through r (CallSet k a)) reg)) = Some reg'
        \<and> (\<forall>cl\<in>set cls. \<not> flushes cl \<and> (\<forall>a'. cl \<noteq> Through r (CallSet k a')))
       \<longrightarrow> fst (registry_step (Through r (CallFind k)) reg') = Of_cache (Bool True)
          \<and> fst (registry_step (Through r (CallGet k)) reg') = Of_cache (Algorithm a))"
proof -
  have later: "fst (registry_step (Through r (CallFind k)) reg') = Of_cache (Bool True)
          \<and> fst (registry_step (Through r (CallGet k)) reg') = Of_cache (Algorithm a)"
    if valid: "fst (registry_step (Through r (CallSet k a)) reg) \<noteq> Dangling"
      and run: "registry_steps cls (snd (registry_step (Through r (CallSet k a)) reg)) = Some reg'"
      and quiet: "\<forall>cl\<in>set cls. \<not> flushes cl \<and> (\<forall>a'. cl \<noteq> Through r (CallSet k a'))"
  proof -
    from valid obtain c0 where c0: "deref reg r = Some c0"
      unfolding registry_step_Through by (cases "deref reg r") simp_all
    define reg1 where "reg1 = snd (registry_step (Through r (CallSet k a)) reg)"
    have "reg1 = assign reg r (Set c0 k a)"
      unfolding reg1_def registry_step_Through using c0 by simp
    with c0 have object1: "deref reg1 r = Some (Set c0 k a)"
      using deref_assign [of reg r "Set c0 k a" r] by simp
    from quiet have no_flush: "\<forall>cl\<in>set cls. \<not> flushes cl"
      and no_Set: "\<forall>cl\<in>set cls. \<forall>a'. cl \<noteq> Through r (CallSet k a')"
      by simp_all
    from run have run1: "registry_steps cls reg1 = Some reg'" by (simp only: reg1_def)
    have object: "deref reg' r = Some (call_list (calls_through r cls) (Set c0 k a))"
      using registry_steps_object [OF run1 object1 no_flush] .
    have "fmlookup (hash (call_list (calls_through r cls) (Set c0 k a))) k = Some a"
      using call_list_keeps_key [OF calls_through_no_Set [OF no_Set], of "Set c0 k a"]
      by (simp add: hash_Set)
    then show ?thesis
      unfolding registry_step_Through object by (simp add: Find_def Get_present)
  qed
  then show ?thesis by (simp add: Get_Set Find_Set Get_present hash_Set)
qed

theorem Set_then_Find_and_Get_witness:
  "fst (Find (Set example_cache 9 3) 9) = True
   \<and> fst (Get (Set example_cache 9 3) 9) = Inr 3
   \<and> fst (registry_step (Through (Ref ''conv2d'' 0) (CallSet 9 3)) example_registry) \<noteq> Dangling
   \<and> registry_steps example_calls
        (snd (registry_step (Through (Ref ''conv2d'' 0) (CallSet 9 3)) example_registry)) \<noteq> None
   \<and> \<not> flushes (CallClean float_0_005)
   \<and> fst (registry_step (Through (Ref ''conv2d'' 0) (CallFind 9))
        (the (registry_steps example_calls
           (snd (registry_step (Through (Ref ''conv2d'' 0) (CallSet 9 3)) example_registry)))))
       = Of_cache (Bool True)
   \<and> fst (registry_step (Through (Ref ''conv2d'' 0) (CallGet 9))
        (the (registry_steps example_calls
           (snd (registry_step (Through (Ref ''conv2d'' 0) (CallSet 9 3)) example_registry)))))
       = Of_cache (Algorithm 3)"
proof -
  define reg1 where
    "reg1 = snd (registry_step (Through (Ref ''conv2d'' 0) (CallSet 9 3)) example_registry)"
  have valid:
    "fst (registry_step (Through (Ref ''conv2d'' 0) (CallSet 9 3)) example_registry) \<noteq> Dangling"
    by (simp add: example_registry_def)
  obtain reg' where run: "registry_steps example_calls reg1 = Some reg'"
    by (simp add: reg1_def example_calls_def example_registry_def example_cache_def Set_def
        Find_def Clean_def float_0_005_keeps RegisterOrGet_def AlgorithmsCache_init_def)
  have quiet: "\<forall>cl\<in>set example_calls.
      \<not> flushes cl \<and> (\<forall>a'. cl \<noteq> Through (Ref ''conv2d'' 0) (CallSet 9 a'))"
    by (simp add: example_calls_def float_0_005_keeps)
  from Set_then_Find_and_Get [where c = example_cache and k = 9 and v = 3 and a = 3
      and r = "Ref ''conv2d'' 0" and reg = example_registry and cls = example_calls
      and reg' = reg'] valid run quiet
  show ?thesis
    by (simp add: reg1_def float_0_005_keeps del: registry_step.simps)
qed

text \<open>
  C2.  \<open>Find(k)\<close> on an absent key adds one to the miss counter and leaves the hit counter
  alone; on a present key it adds one to the hit counter and leaves the miss counter alone;
  \<open>Get\<close> and \<open>Set\<close> change neither counter.  Read as signed numbers, neither counter
  decreases across any call, and a \<open>Find\<close> raises their sum by exactly one, as long as the
  counters are below the largest \<open>int64_t\<close>, where \<open>++\<close> has a defined result.
\<close>

theorem Find_counts_hit_or_miss:
  "(fmlookup (hash c) k = None \<longrightarrow>
      cache_misses (snd (Find c k)) = cache_misses c + 1
      \<and> cache_hits (snd (Find c k)) = cache_hits c)
   \<and> (fmlookup (hash c) k \<noteq> None \<longrightarrow>
      cache_hits (snd (Find c k)) = cache_hits c + 1
      \<and> cache_misses (snd (Find c k)) = cache_misses c)
   \<and> cache_hits (snd (Get c k)) = cache_hits c
   \<and> cache_misses (snd (Get c k)) = cache_misses c
   \<and> cache_hits (Set c k v) = cache_hits c
   \<and> cache_misses (Set c k v) = cache_misses c
   \<and> (sint (cache_hits c) < 2 ^ 63 - 1 \<and> sint (cache_misses c) < 2 ^ 63 - 1 \<longrightarrow>
        sint (cache_hits c) \<le> sint (cache_hits (snd (call cl c)))
        \<and> sint (cache_misses c) \<le> sint (cache_misses (snd (call cl c)))
        \<and> sint (cache_hits (snd (Find c k))) + sint (cache_misses (snd (Find c k)))
            = sint (cache_hits c) + sint (cache_misses c) + 1)"
proof -
  have mono: "sint (cache_hits c) \<le> sint (cache_hits (snd (call cl c)))
        \<and> sint (cache_misses c) \<le> sint (cache_misses (snd (call cl c)))"
    if "sint (cache_hits c) < 2 ^ 63 - 1" "sint (cache_misses c) < 2 ^ 63 - 1"
    using that by (cases cl) (simp_all add: snd_call Find_def Set_def sint_succ del: call.simps)
  have one: "sint (cache_hits (snd (Find c k))) + sint (cache_misses (snd (Find c k)))
            = sint (cache_hits c) + sint (cache_misses c) + 1"
    if "sint (cache_hits c) < 2 ^ 63 - 1" "sint (cache_misses c) < 2 ^ 63 - 1"
    using that by (simp add: Find_def sint_succ)
  show ?thesis
    using mono one by (simp add: Find_def Set_def)
qed

theorem Find_counts_hit_or_miss_witness:
  "fmlookup (hash example_cache) 6 = None
   \<and> cache_misses (snd (Find example_cache 6)) = 3
   \<and> cache_hits (snd (Find example_cache 6)) = 1
   \<and> fmlookup (hash example_cache) 5 \<noteq> None
   \<and> cache_hits (snd (Find example_cache 5)) = 2
   \<and> cache_misses (snd (Find example_cache 5)) = 2
   \<and> sint (cache_hits example_cache) < 2 ^ 63 - 1
   \<and> sint (cache_misses example_cache) < 2 ^ 63 - 1
   \<and> sint (cache_hits example_cache) \<le> sint (cache_hits (snd (call (CallFind 5) example_cache)))
   \<and> sint (cache_misses example_cache)
       \<le> sint (cache_misses (snd (call (CallFind 5) example_cache)))"
proof -
  have absent: "fmlookup (hash example_cache) 6 = None"
    and present: "fmlookup (hash example_cache) 5 \<noteq> None"
    and small: "sint (cache_hits example_cache) < 2 ^ 63 - 1"
      "sint (cache_misses example_cache) < 2 ^ 63 - 1"
    and counters: "cache_hits example_cache = 1" "cache_misses example_cache = 2"
    by (simp_all add: example_cache_def)
  from Find_counts_hit_or_miss [of example_cache 6 0 "CallFind 5"]
    Find_counts_hit_or_miss [of example_cache 5 0 "CallFind 5"]
    absent present small
  show ?thesis
    by (simp add: counters del: call.simps)
qed

text \<open>
  C3.  \<open>GetKey\<close> folds its arguments from left to right, starting from seed 0, with the
  step \<open>seed XOR (hash + 0x9e3779b9 + (seed << 6) + (seed >> 2))\<close> in 64-bit unsigned
  arithmetic; a vector argument is first reduced by the same step over its elements in
  order, from seed 0, and the result enters the outer fold as the hash of one argument.
\<close>

theorem GetKey_is_spec_fold: "GetKey h args = spec_GetKey h args"
  by (simp add: GetKey_def spec_GetKey_def HashCombine_foldl std_hash_spec_hash)

text \<open>
  C4.  \<open>Clean(miss_rate)\<close> with a miss rate above 1/100, plus infinity included, removes
  every family from the registry: each family requested afterwards is created afresh, with
  \<open>Size()\<close> 0.  With a miss rate at or below 1/100, minus infinity included, and with a
  NaN, \<open>Clean\<close> leaves the whole registry, every mapping and every counter, as it was.
\<close>

theorem Clean_flushes_above_tolerance:
  "((float_is_inf x \<and> \<not> sign x) \<or> (float_is_finite x \<and> 1 / 100 < float_value x) \<longrightarrow>
      auto_tune_map (Clean reg x) = fmempty
      \<and> deref (snd (RegisterOrGet (Clean reg x) name)) (fst (RegisterOrGet (Clean reg x) name))
          = Some AlgorithmsCache_init
      \<and> Size (AlgorithmsCache_init :: AlgorithmsConfigKeyMap) = 0)
   \<and> (float_is_nan x \<or> (float_is_inf x \<and> sign x)
        \<or> (float_is_finite x \<and> float_value x \<le> 1 / 100) \<longrightarrow>
      Clean reg x = reg)"
proof -
  have above: "float_gt_double x double_0_01"
    if "(float_is_inf x \<and> \<not> sign x) \<or> (float_is_finite x \<and> 1 / 100 < float_value x)"
    using that unfolding float_gt_tolerance
    by (auto simp: float_is_inf_def float_is_nan_def float_is_finite_def)
  have below: "\<not> float_gt_double x double_0_01"
    if "float_is_nan x \<or> (float_is_inf x \<and> sign x)
        \<or> (float_is_finite x \<and> float_value x \<le> 1 / 100)"
    using that unfolding float_gt_tolerance
    by (auto simp: float_is_inf_def float_is_nan_def float_is_finite_def)
  have flushed: "auto_tune_map (Clean reg x) = fmempty
      \<and> deref (snd (RegisterOrGet (Clean reg x) name)) (fst (RegisterOrGet (Clean reg x) name))
          = Some AlgorithmsCache_init"
    if "float_gt_double x double_0_01"
    using that by (simp add: deref_RegisterOrGet) (simp add: Clean_def)
  show ?thesis
    using above below flushed fresh_cache [where 'a = int64_t] by (auto simp: Clean_def)
qed

theorem Clean_flushes_above_tolerance_witness:
  "float_is_finite float_0_02 \<and> 1 / 100 < float_value float_0_02
   \<and> auto_tune_map example_registry \<noteq> fmempty
   \<and> auto_tune_map (Clean example_registry float_0_02) = fmempty
   \<and> float_is_finite float_0_005 \<and> float_value float_0_005 \<le> 1 / 100
   \<and> Clean example_registry float_0_005 = example_registry"
proof -
  have big: "float_is_finite float_0_02 \<and> 1 / 100 < float_value float_0_02"
    by (simp add: float_0_02_value)
  have small: "float_is_finite float_0_005 \<and> float_value float_0_005 \<le> 1 / 100"
    by (simp add: float_0_005_value)
  have full: "auto_tune_map example_registry \<noteq> fmempty"
  proof
    assume "auto_tune_map example_registry = fmempty"
    then have "fmlookup (auto_tune_map example_registry) ''conv2d'' = None" by simp
    then show False by (simp add: example_registry_def)
  qed
  from Clean_flushes_above_tolerance [of float_0_02 example_registry "''conv2d''"]
    Clean_flushes_above_tolerance [of float_0_005 example_registry "''conv2d''"]
    big small full
  show ?thesis by simp
qed

text \<open>
  C5.  \<open>Get(k)\<close> on an absent key fails with the precondition error
  \<open>The key does not exist.\<close> and leaves the cache, its mapping and both counters, as it
  was.  No other call on a cache throws, and the only failure a call on the cache throws
  is that one; the member functions of the registry throw nothing, and a call through a
  reference throws only where it is such a \<open>Get\<close>.
\<close>

theorem Get_absent_is_the_only_failure:
  "(fmlookup (hash c) k = None \<longrightarrow>
      Get c k = (Inl (PreconditionNotMet ''The key does not exist.''), c))
   \<and> (fst (call cl c) = Raised e \<longrightarrow>
        (\<exists>key. cl = CallGet key \<and> fmlookup (hash c) key = None)
        \<and> e = PreconditionNotMet ''The key does not exist.''
        \<and> snd (call cl c) = c)
   \<and> (fst (registry_step rc reg) = Of_cache (Raised e) \<longrightarrow>
        (\<exists>r key. rc = Through r (CallGet key)))
   \<and> (fst (registry_step rc reg) = Dangling \<longrightarrow> (\<exists>r cl'. rc = Through r cl'))"
proof -
  have a: "(\<exists>key. cl = CallGet key \<and> fmlookup (hash c) key = None)
        \<and> e = PreconditionNotMet ''The key does not exist.''
        \<and> snd (call cl c) = c" if "fst (call cl c) = Raised e"
  proof (cases cl)
    case (CallGet key)
    with that show ?thesis
      by (cases "fmlookup (hash c) key") (auto simp: Get_present Get_absent)
  qed (use that in \<open>simp_all split: prod.splits\<close>)
  have b: "\<exists>r key. rc = Through r (CallGet key)"
    if "fst (registry_step rc reg) = Of_cache (Raised e)"
  proof (cases rc)
    case (Through r cl')
    show ?thesis
    proof (cases "deref reg r")
      case None
      with that Through show ?thesis by simp
    next
      case (Some c')
      with that Through have "fst (call cl' c') = Raised e"
        by (simp split: prod.splits)
      then obtain key where "cl' = CallGet key"
        by (cases cl') (simp_all split: prod.splits)
      with Through show ?thesis by blast
    qed
  qed (use that in \<open>simp_all split: prod.splits\<close>)
  have d: "\<exists>r cl'. rc = Through r cl'" if "fst (registry_step rc reg) = Dangling"
    using that by (cases rc) (simp_all split: prod.splits)
  show ?thesis using a b d by (simp add: Get_absent)
qed

theorem Get_absent_is_the_only_failure_witness:
  "fmlookup (hash example_cache) 6 = None
   \<and> Get example_cache 6 = (Inl (PreconditionNotMet ''The key does not exist.''), example_cache)
   \<and> fst (call (CallGet 6) example_cache) = Raised (PreconditionNotMet ''The key does not exist.'')
   \<and> snd (call (CallGet 6) example_cache) = example_cache
   \<and> fst (registry_step (Through (Ref ''conv2d'' 0) (CallGet 6)) example_registry)
       = Of_cache (Raised (PreconditionNotMet ''The key does not exist.''))
   \<and> fst (registry_step (Through (Ref ''matmul'' 0) CallSize) example_registry) = Dangling"
proof -
  have absent: "fmlookup (hash example_cache) 6 = None" by (simp add: example_cache_def)
  have raised: "fst (call (CallGet 6) example_cache)
      = Raised (PreconditionNotMet ''The key does not exist.'')"
    by (simp add: Get_absent [OF absent])
  have through: "fst (registry_step (Through (Ref ''conv2d'' 0) (CallGet 6)) example_registry)
       = Of_cache (Raised (PreconditionNotMet ''The key does not exist.''))"
    by (simp add: example_registry_def Get_absent [OF absent])
  have dangling: "fst (registry_step (Through (Ref ''matmul'' 0) CallSize) example_registry)
       = Dangling"
    by (simp add: example_registry_def)
  from Get_absent_is_the_only_failure [of example_cache 6 "CallGet 6"
      "PreconditionNotMet ''The key does not exist.''"
      "Through (Ref ''conv2d'' 0) (CallGet 6)" example_registry]
    Get_absent_is_the_only_failure [of example_cache 6 "CallGet 6"
      "PreconditionNotMet ''The key does not exist.''"
      "Through (Ref ''matmul'' 0) CallSize" example_registry]
    absent raised through dangling
  show ?thesis by (simp del: call.simps registry_step.simps)
qed

text \<open>
  C6.  \<open>Set(k, v1)\<close> followed by \<open>Set(k, v2)\<close> leaves \<open>Get(k)\<close> equal to \<open>v2\<close>, and the
  second \<open>Set\<close> leaves \<open>Size()\<close> unchanged.  In general \<open>Set\<close> of a key already present
  leaves \<open>Size()\<close> and the number of entries unchanged, and \<open>Set\<close> of a fresh key raises
  both by exactly one.
\<close>

theorem Set_overwrites:
  "fst (Get (Set (Set c k v1) k v2) k) = Inr v2
   \<and> Size (Set (Set c k v1) k v2) = Size (Set c k v1)
   \<and> (fmlookup (hash c) k \<noteq> None \<longrightarrow>
        Size (Set c k v) = Size c
        \<and> fcard (fmdom (hash (Set c k v))) = fcard (fmdom (hash c)))
   \<and> (fmlookup (hash c) k = None \<longrightarrow>
        Size (Set c k v) = Size c + 1
        \<and> fcard (fmdom (hash (Set c k v))) = fcard (fmdom (hash c)) + 1)"
proof -
  have "fmlookup (hash (Set c k v1)) k \<noteq> None" by (simp add: hash_Set)
  then have "Size (Set (Set c k v1) k v2) = Size (Set c k v1)" by (simp add: Size_Set)
  then show ?thesis by (simp add: Get_Set Size_Set entries_Set)
qed

theorem Set_overwrites_witness:
  "fmlookup (hash example_cache) 5 \<noteq> None
   \<and> Size example_cache = 1
   \<and> Size (Set example_cache 5 8) = 1
   \<and> fst (Get (Set example_cache 5 8) 5) = Inr 8
   \<and> fmlookup (hash example_cache) 6 = None
   \<and> Size (Set example_cache 6 8) = 2"
proof -
  have absent: "fmlookup (hash example_cache) 6 = None"
    and present: "fmlookup (hash example_cache) 5 \<noteq> None"
    by (simp_all add: example_cache_def)
  have size: "Size example_cache = 1"
    by (simp add: Size_def example_cache_def fcard_fmdom_fmupd fcard_fempty del: fmdom_fmupd)
  from Set_overwrites [of example_cache 5 7 8 8] Set_overwrites [of example_cache 6 7 8 8]
    absent present size
  show ?thesis by (simp add: Get_Set)
qed

text \<open>
  C7.  \<open>CacheHitRate()\<close> returns 0 when hits + misses is 0, and otherwise the quotient,
  in \<open>float\<close> arithmetic, of the hit counter and the sum of the counters, both converted
  to \<open>float\<close>; the divisor is then a finite \<open>float\<close> other than zero, so no division by
  zero occurs.  For counters that are not negative and whose sum does not overflow, the
  result is finite and differs from hits / (hits + misses) by at most that number times
  \<open>2^-22\<close>.  The same holds of the \<open>CacheHitRate()\<close> of the registry on the totals of the
  last snapshot.
\<close>

theorem CacheHitRate_formula:
  "((cache_hits c + cache_misses c = 0 \<longrightarrow>
        CacheHitRate c = float_zero \<and> float_value float_zero = 0)
    \<and> (cache_hits c + cache_misses c \<noteq> 0 \<longrightarrow>
        CacheHitRate c = float_div (float_of_int64 (cache_hits c))
                           (float_of_int64 (cache_hits c + cache_misses c))
        \<and> float_is_finite (float_of_int64 (cache_hits c + cache_misses c))
        \<and> float_value (float_of_int64 (cache_hits c + cache_misses c)) \<noteq> 0)
    \<and> (0 \<le> sint (cache_hits c) \<and> 0 \<le> sint (cache_misses c)
        \<and> 0 < sint (cache_hits c) + sint (cache_misses c)
        \<and> sint (cache_hits c) + sint (cache_misses c) < 2 ^ 63 \<longrightarrow>
        float_is_finite (CacheHitRate c)
        \<and> \<bar>float_value (CacheHitRate c)
            - of_int (sint (cache_hits c)) / of_int (sint (cache_hits c) + sint (cache_misses c))\<bar>
           \<le> of_int (sint (cache_hits c))
               / of_int (sint (cache_hits c) + sint (cache_misses c)) / 2 ^ 22))
   \<and> ((total_cache_hits reg + total_cache_misses reg = 0 \<longrightarrow>
        AutoTuneCache_CacheHitRate reg = float_zero)
    \<and> (total_cache_hits reg + total_cache_misses reg \<noteq> 0 \<longrightarrow>
        AutoTuneCache_CacheHitRate reg
          = float_div (float_of_int64 (total_cache_hits reg))
              (float_of_int64 (total_cache_hits reg + total_cache_misses reg))
        \<and> float_is_finite (float_of_int64 (total_cache_hits reg + total_cache_misses reg))
        \<and> float_value (float_of_int64 (total_cache_hits reg + total_cache_misses reg)) \<noteq> 0)
    \<and> (0 \<le> sint (total_cache_hits reg) \<and> 0 \<le> sint (total_cache_misses reg)
        \<and> 0 < sint (total_cache_hits reg) + sint (total_cache_misses reg)
        \<and> sint (total_cache_hits reg) + sint (total_cache_misses reg) < 2 ^ 63 \<longrightarrow>
        float_is_finite (AutoTuneCache_CacheHitRate reg)
        \<and> \<bar>float_value (AutoTuneCache_CacheHitRate reg)
            - of_int (sint (total_cache_hits reg))
              / of_int (sint (total_cache_hits reg) + sint (total_cache_misses reg))\<bar>
           \<le> of_int (sint (total_cache_hits reg))
               / of_int (sint (total_cache_hits reg) + sint (total_cache_misses reg)) / 2 ^ 22))"
proof -
  have c: "CacheHitRate c =
      (if cache_hits c + cache_misses c \<noteq> 0
       then float_div (float_of_int64 (cache_hits c))
              (float_of_int64 (cache_hits c + cache_misses c))
       else float_zero)"
    by (simp add: CacheHitRate_def Let_def)
  have r: "AutoTuneCache_CacheHitRate reg =
      (if total_cache_hits reg + total_cache_misses reg \<noteq> 0
       then float_div (float_of_int64 (total_cache_hits reg))
              (float_of_int64 (total_cache_hits reg + total_cache_misses reg))
       else float_zero)"
    by (simp add: AutoTuneCache_CacheHitRate_def Let_def)
  show ?thesis
    unfolding c r
    using hit_rate_formula [of "cache_hits c" "cache_misses c"]
      hit_rate_formula [of "total_cache_hits reg" "total_cache_misses reg"]
    by blast
qed

theorem CacheHitRate_formula_witness:
  "cache_hits scenario_cache + cache_misses scenario_cache \<noteq> 0
   \<and> CacheHitRate scenario_cache = \<lparr>sign = False, exponent = 126, fraction = 0\<rparr>
   \<and> cache_hits (AlgorithmsCache_init :: AlgorithmsConfigKeyMap)
       + cache_misses (AlgorithmsCache_init :: AlgorithmsConfigKeyMap) = 0
   \<and> CacheHitRate (AlgorithmsCache_init :: AlgorithmsConfigKeyMap) = float_zero
   \<and> total_cache_hits Instance + total_cache_misses Instance = 0
   \<and> AutoTuneCache_CacheHitRate Instance = float_zero
   \<and> total_cache_hits (UpdateStatus example_registry)
       + total_cache_misses (UpdateStatus example_registry) \<noteq> 0
   \<and> float_is_finite (AutoTuneCache_CacheHitRate (UpdateStatus example_registry))
   \<and> \<bar>float_value (AutoTuneCache_CacheHitRate (UpdateStatus example_registry)) - 1 / 3\<bar>
       \<le> 1 / 3 / 2 ^ 22"
proof -
  have half: "float_div (float_of_int64 1) (float_of_int64 2)
      = \<lparr>sign = False, exponent = 126, fraction = 0\<rparr>"
    by (simp add: float_of_int64_1 float_of_int64_2 float_div_1_2)
  have none: "cache_hits (AlgorithmsCache_init :: AlgorithmsConfigKeyMap) = 0"
    "cache_misses (AlgorithmsCache_init :: AlgorithmsConfigKeyMap) = 0"
    "total_cache_hits Instance = 0" "total_cache_misses Instance = 0"
    by (simp_all add: AlgorithmsCache_init_def Instance_def)
  have totals: "total_cache_hits (UpdateStatus example_registry) = 1"
    "total_cache_misses (UpdateStatus example_registry) = 2"
    by (simp_all add: UpdateStatus_example)
  from CacheHitRate_formula [of scenario_cache "UpdateStatus example_registry"]
    CacheHitRate_formula [of "AlgorithmsCache_init :: AlgorithmsConfigKeyMap" Instance]
  show ?thesis
    by (auto simp: scenario_cache_counters none totals half simp del: of_int_sint)
qed

text \<open>
  C8.  \<open>UpdateStatus\<close> sets \<open>total_size\<close>, \<open>total_cache_hits\<close> and
  \<open>total_cache_misses\<close> to the sums, in \<open>int64_t\<close> arithmetic, of \<open>Size()\<close>,
  \<open>CacheHits()\<close> and \<open>CacheMisses()\<close> over the entries of the registry, and leaves every
  entry as it was.  Where no number is negative and the three sums stay below \<open>2^63\<close>,
  the totals are these sums as integers.  The four accessors of the registry read these three numbers only:
  after any calls other than \<open>UpdateStatus\<close>, changes to the caches and \<open>Clean\<close>
  included, they return what they returned right after the last \<open>UpdateStatus\<close>.
\<close>

theorem UpdateStatus_snapshot:
  "total_size (UpdateStatus reg) = (\<Sum>v\<in>fset (fset_of_fmap (auto_tune_map reg)). Size (snd v))
   \<and> total_cache_hits (UpdateStatus reg)
       = (\<Sum>v\<in>fset (fset_of_fmap (auto_tune_map reg)). CacheHits (snd v))
   \<and> total_cache_misses (UpdateStatus reg)
       = (\<Sum>v\<in>fset (fset_of_fmap (auto_tune_map reg)). CacheMisses (snd v))
   \<and> ((\<forall>v\<in>fset (fset_of_fmap (auto_tune_map reg)).
          0 \<le> sint (Size (snd v)) \<and> 0 \<le> sint (CacheHits (snd v))
          \<and> 0 \<le> sint (CacheMisses (snd v)))
        \<and> (\<Sum>v\<in>fset (fset_of_fmap (auto_tune_map reg)). sint (Size (snd v))) < 2 ^ 63
        \<and> (\<Sum>v\<in>fset (fset_of_fmap (auto_tune_map reg)). sint (CacheHits (snd v))) < 2 ^ 63
        \<and> (\<Sum>v\<in>fset (fset_of_fmap (auto_tune_map reg)). sint (CacheMisses (snd v))) < 2 ^ 63
       \<longrightarrow>
        sint (total_size (UpdateStatus reg))
          = (\<Sum>v\<in>fset (fset_of_fmap (auto_tune_map reg)). sint (Size (snd v)))
        \<and> sint (total_cache_hits (UpdateStatus reg))
          = (\<Sum>v\<in>fset (fset_of_fmap (auto_tune_map reg)). sint (CacheHits (snd v)))
        \<and> sint (total_cache_misses (UpdateStatus reg))
          = (\<Sum>v\<in>fset (fset_of_fmap (auto_tune_map reg)). sint (CacheMisses (snd v))))
   \<and> auto_tune_map (UpdateStatus reg) = auto_tune_map reg
   \<and> AutoTuneCache_Size (UpdateStatus reg) = total_size (UpdateStatus reg)
   \<and> AutoTuneCache_CacheHits (UpdateStatus reg) = total_cache_hits (UpdateStatus reg)
   \<and> AutoTuneCache_CacheMisses (UpdateStatus reg) = total_cache_misses (UpdateStatus reg)
   \<and> (registry_steps cls (UpdateStatus reg) = Some reg' \<and> CallUpdateStatus \<notin> set cls \<longrightarrow>
        AutoTuneCache_Size reg' = AutoTuneCache_Size (UpdateStatus reg)
        \<and> AutoTuneCache_CacheHits reg' = AutoTuneCache_CacheHits (UpdateStatus reg)
        \<and> AutoTuneCache_CacheMisses reg' = AutoTuneCache_CacheMisses (UpdateStatus reg)
        \<and> AutoTuneCache_CacheHitRate reg' = AutoTuneCache_CacheHitRate (UpdateStatus reg))"
proof -
  let ?S = "fset (fset_of_fmap (auto_tune_map reg))"
  have later: "AutoTuneCache_Size reg' = AutoTuneCache_Size (UpdateStatus reg)
        \<and> AutoTuneCache_CacheHits reg' = AutoTuneCache_CacheHits (UpdateStatus reg)
        \<and> AutoTuneCache_CacheMisses reg' = AutoTuneCache_CacheMisses (UpdateStatus reg)
        \<and> AutoTuneCache_CacheHitRate reg' = AutoTuneCache_CacheHitRate (UpdateStatus reg)"
    if "registry_steps cls (UpdateStatus reg) = Some reg'" "CallUpdateStatus \<notin> set cls"
    using totals_registry_steps [OF that]
    by (simp add: AutoTuneCache_Size_def AutoTuneCache_CacheHits_def
        AutoTuneCache_CacheMisses_def AutoTuneCache_CacheHitRate_def Let_def)
  have signed: "sint (\<Sum>v\<in>?S. f (snd v)) = (\<Sum>v\<in>?S. sint (f (snd v)))"
    if "\<forall>v\<in>?S. 0 \<le> sint (f (snd v))" "(\<Sum>v\<in>?S. sint (f (snd v))) < 2 ^ 63"
    for f :: "AlgorithmsConfigKeyMap \<Rightarrow> int64_t"
    using sint_sum [of ?S "\<lambda>v. f (snd v)"] that by simp
  have exact: "sint (total_size (UpdateStatus reg)) = (\<Sum>v\<in>?S. sint (Size (snd v)))
        \<and> sint (total_cache_hits (UpdateStatus reg)) = (\<Sum>v\<in>?S. sint (CacheHits (snd v)))
        \<and> sint (total_cache_misses (UpdateStatus reg)) = (\<Sum>v\<in>?S. sint (CacheMisses (snd v)))"
    if "\<forall>v\<in>?S. 0 \<le> sint (Size (snd v)) \<and> 0 \<le> sint (CacheHits (snd v))
          \<and> 0 \<le> sint (CacheMisses (snd v))"
      "(\<Sum>v\<in>?S. sint (Size (snd v))) < 2 ^ 63"
      "(\<Sum>v\<in>?S. sint (CacheHits (snd v))) < 2 ^ 63"
      "(\<Sum>v\<in>?S. sint (CacheMisses (snd v))) < 2 ^ 63"
    using signed [of Size] signed [of CacheHits] signed [of CacheMisses] that
    by (simp add: UpdateStatus_totals)
  show ?thesis
    using later exact
    by (simp add: UpdateStatus_totals AutoTuneCache_Size_def AutoTuneCache_CacheHits_def
        AutoTuneCache_CacheMisses_def)
qed

theorem UpdateStatus_snapshot_witness:
  "0 \<le> sint (Size example_cache) \<and> 0 \<le> sint (CacheHits example_cache)
   \<and> 0 \<le> sint (CacheMisses example_cache)
   \<and> sint (total_size (UpdateStatus example_registry)) = 1
   \<and> sint (total_cache_hits (UpdateStatus example_registry)) = 1
   \<and> sint (total_cache_misses (UpdateStatus example_registry)) = 2
   \<and> registry_steps later_calls (UpdateStatus example_registry) \<noteq> None
   \<and> CallUpdateStatus \<notin> set later_calls
   \<and> auto_tune_map (the (registry_steps later_calls (UpdateStatus example_registry))) = fmempty
   \<and> AutoTuneCache_Size (the (registry_steps later_calls (UpdateStatus example_registry))) = 1
   \<and> AutoTuneCache_CacheHits (the (registry_steps later_calls (UpdateStatus example_registry))) = 1
   \<and> AutoTuneCache_CacheMisses (the (registry_steps later_calls (UpdateStatus example_registry)))
       = 2"
proof -
  have small: "\<forall>v\<in>fset (fset_of_fmap (auto_tune_map example_registry)).
          0 \<le> sint (Size (snd v)) \<and> 0 \<le> sint (CacheHits (snd v))
          \<and> 0 \<le> sint (CacheMisses (snd v))"
    "(\<Sum>v\<in>fset (fset_of_fmap (auto_tune_map example_registry)). sint (Size (snd v))) < 2 ^ 63"
    "(\<Sum>v\<in>fset (fset_of_fmap (auto_tune_map example_registry)). sint (CacheHits (snd v)))
      < 2 ^ 63"
    "(\<Sum>v\<in>fset (fset_of_fmap (auto_tune_map example_registry)). sint (CacheMisses (snd v)))
      < 2 ^ 63"
    by (simp_all add: example_entries example_cache_numbers)
  obtain reg' where run: "registry_steps later_calls (UpdateStatus example_registry) = Some reg'"
    and flushed: "auto_tune_map reg' = fmempty"
    unfolding UpdateStatus_example
    by (simp add: later_calls_def example_registry_def example_cache_def
        Set_def Find_def Clean_def float_0_02_flushes RegisterOrGet_def AlgorithmsCache_init_def)
  have others: "CallUpdateStatus \<notin> set later_calls" by (simp add: later_calls_def)
  from UpdateStatus_snapshot [of example_registry later_calls reg'] small run others flushed
  show ?thesis
    by (simp add: example_entries example_cache_numbers)
qed

text \<open>
  C9.  \<open>RegisterOrGet\<close> on a name that has no entry returns a reference to a
  new cache with \<open>Size()\<close> 0, no hits and no misses.  A later \<open>RegisterOrGet\<close> with the
  same name, with no flushing \<open>Clean\<close> among the calls in between, changes nothing in the
  registry and returns the same reference, that is, a reference to the same node; and the
  cache read through the later reference is the cache of the first call after exactly the
  calls made through the earlier reference, in their order.  In particular a \<open>Set(k, v)\<close>
  made through the earlier reference is found by \<open>Find(k)\<close> and returned by \<open>Get(k)\<close>
  through the later one, unless \<open>k\<close> was set again in between.
\<close>

theorem RegisterOrGet_same_cache:
  "(fmlookup (auto_tune_map reg) name = None \<longrightarrow>
      deref (snd (RegisterOrGet reg name)) (fst (RegisterOrGet reg name))
        = Some AlgorithmsCache_init
      \<and> Size (AlgorithmsCache_init :: AlgorithmsConfigKeyMap) = 0
      \<and> CacheHits (AlgorithmsCache_init :: AlgorithmsConfigKeyMap) = 0
      \<and> CacheMisses (AlgorithmsCache_init :: AlgorithmsConfigKeyMap) = 0)
   \<and> (registry_steps cls (snd (RegisterOrGet reg name)) = Some reg'
        \<and> (\<forall>cl\<in>set cls. \<not> flushes cl) \<longrightarrow>
        RegisterOrGet reg' name = (fst (RegisterOrGet reg name), reg')
        \<and> deref (snd (RegisterOrGet reg name)) (fst (RegisterOrGet reg name)) \<noteq> None
        \<and> deref (snd (RegisterOrGet reg' name)) (fst (RegisterOrGet reg' name))
            = map_option (call_list (calls_through (fst (RegisterOrGet reg name)) cls))
                (deref (snd (RegisterOrGet reg name)) (fst (RegisterOrGet reg name))))
   \<and> (registry_steps later
          (snd (registry_step (Through (fst (RegisterOrGet reg name)) (CallSet k v))
                  (snd (RegisterOrGet reg name)))) = Some reg''
        \<and> (\<forall>cl\<in>set later.
              \<not> flushes cl \<and> (\<forall>v'. cl \<noteq> Through (fst (RegisterOrGet reg name)) (CallSet k v')))
       \<longrightarrow>
        fst (registry_step (Through (fst (RegisterOrGet reg'' name)) (CallFind k))
               (snd (RegisterOrGet reg'' name))) = Of_cache (Bool True)
        \<and> fst (registry_step (Through (fst (RegisterOrGet reg'' name)) (CallGet k))
               (snd (RegisterOrGet reg'' name))) = Of_cache (Algorithm v))"
proof -
  define r where "r = fst (RegisterOrGet reg name)"
  define reg1 where "reg1 = snd (RegisterOrGet reg name)"
  have r: "r = Ref name (cleared reg1)"
    by (simp add: r_def reg1_def fst_RegisterOrGet cleared_RegisterOrGet)
  obtain c1 where c1: "deref reg1 r = Some c1"
    unfolding r_def reg1_def deref_RegisterOrGet
    by (cases "fmlookup (auto_tune_map reg) name") simp_all
  have again: "RegisterOrGet reg2 name = (r, reg2)
      \<and> deref reg2 r = Some (call_list (calls_through r calls) c1)"
    if run: "registry_steps calls reg1 = Some reg2" and quiet: "\<forall>cl\<in>set calls. \<not> flushes cl"
    for calls reg2
  proof -
    have object: "deref reg2 r = Some (call_list (calls_through r calls) c1)"
      using registry_steps_object [OF run c1 quiet] .
    have same: "cleared reg2 = cleared reg1"
      using cleared_registry_steps [OF run quiet] .
    from object have "fmlookup (auto_tune_map reg2) name \<noteq> None"
      unfolding r by (simp split: if_splits)
    then have "RegisterOrGet reg2 name = (r, reg2)"
      by (simp add: RegisterOrGet_present r same)
    with object show ?thesis by simp
  qed
  have second: "RegisterOrGet reg' name = (r, reg')
        \<and> deref reg1 r \<noteq> None
        \<and> deref (snd (RegisterOrGet reg' name)) (fst (RegisterOrGet reg' name))
            = map_option (call_list (calls_through r cls)) (deref reg1 r)"
    if "registry_steps cls reg1 = Some reg'" "\<forall>cl\<in>set cls. \<not> flushes cl"
    using again [OF that] c1 by (simp del: deref.simps)
  have third: "fst (registry_step (Through (fst (RegisterOrGet reg'' name)) (CallFind k))
               (snd (RegisterOrGet reg'' name))) = Of_cache (Bool True)
        \<and> fst (registry_step (Through (fst (RegisterOrGet reg'' name)) (CallGet k))
               (snd (RegisterOrGet reg'' name))) = Of_cache (Algorithm v)"
    if run: "registry_steps later (snd (registry_step (Through r (CallSet k v)) reg1))
        = Some reg''"
      and quiet: "\<forall>cl\<in>set later. \<not> flushes cl \<and> (\<forall>v'. cl \<noteq> Through r (CallSet k v'))"
  proof -
    from quiet have no_flush: "\<forall>cl\<in>set (Through r (CallSet k v) # later). \<not> flushes cl"
      and no_Set: "\<forall>cl\<in>set later. \<forall>v'. cl \<noteq> Through r (CallSet k v')"
      by simp_all
    have "fst (registry_step (Through r (CallSet k v)) reg1) = Of_cache Void"
      unfolding registry_step_Through using c1 by simp
    with run have all: "registry_steps (Through r (CallSet k v) # later) reg1 = Some reg''"
      by (simp add: case_prod_unfold del: registry_step.simps)
    from again [OF all no_flush]
    have same: "RegisterOrGet reg'' name = (r, reg'')"
      and object: "deref reg'' r
        = Some (call_list (calls_through r later) (Set c1 k v))"
      by simp_all
    have "fmlookup (hash (call_list (calls_through r later) (Set c1 k v))) k = Some v"
      using call_list_keeps_key [OF calls_through_no_Set [OF no_Set], of "Set c1 k v"]
      by (simp add: hash_Set)
    then show ?thesis
      unfolding same fst_conv snd_conv registry_step_Through object
      by (simp add: Find_def Get_present)
  qed
  have first: "deref reg1 r = Some AlgorithmsCache_init"
    if "fmlookup (auto_tune_map reg) name = None"
    unfolding r_def reg1_def deref_RegisterOrGet using that by simp
  show ?thesis
    using first second third fresh_cache [where 'a = int64_t]
    unfolding r_def reg1_def by blast
qed

theorem RegisterOrGet_same_cache_witness:
  "fmlookup (auto_tune_map Instance) ''conv2d'' = None
   \<and> deref (snd (RegisterOrGet Instance ''conv2d'')) (fst (RegisterOrGet Instance ''conv2d''))
       = Some AlgorithmsCache_init
   \<and> registry_steps quiet_calls (snd (RegisterOrGet Instance ''conv2d'')) \<noteq> None
   \<and> \<not> flushes (CallClean float_0_005)
   \<and> fst (RegisterOrGet
        (the (registry_steps quiet_calls (snd (RegisterOrGet Instance ''conv2d'')))) ''conv2d'')
       = fst (RegisterOrGet Instance ''conv2d'')
   \<and> snd (RegisterOrGet
        (the (registry_steps quiet_calls (snd (RegisterOrGet Instance ''conv2d'')))) ''conv2d'')
       = the (registry_steps quiet_calls (snd (RegisterOrGet Instance ''conv2d'')))
   \<and> calls_through (fst (RegisterOrGet Instance ''conv2d'')) quiet_calls = [CallSet 5 7]
   \<and> deref (the (registry_steps quiet_calls (snd (RegisterOrGet Instance ''conv2d''))))
        (fst (RegisterOrGet
           (the (registry_steps quiet_calls (snd (RegisterOrGet Instance ''conv2d''))))
           ''conv2d''))
       = Some (Set AlgorithmsCache_init 5 7)
   \<and> fst (registry_step (Through (fst (RegisterOrGet Instance ''conv2d'')) (CallGet 5))
        (the (registry_steps quiet_calls (snd (RegisterOrGet Instance ''conv2d'')))))
       = Of_cache (Algorithm 7)
   \<and> registry_steps quiet_calls
        (snd (registry_step (Through (fst (RegisterOrGet Instance ''conv2d'')) (CallSet 9 3))
                (snd (RegisterOrGet Instance ''conv2d'')))) \<noteq> None
   \<and> fst (registry_step
        (Through
           (fst (RegisterOrGet
              (the (registry_steps quiet_calls
                 (snd (registry_step
                    (Through (fst (RegisterOrGet Instance ''conv2d'')) (CallSet 9 3))
                    (snd (RegisterOrGet Instance ''conv2d''))))))
              ''conv2d''))
           (CallGet 9))
        (snd (RegisterOrGet
           (the (registry_steps quiet_calls
              (snd (registry_step
                 (Through (fst (RegisterOrGet Instance ''conv2d'')) (CallSet 9 3))
                 (snd (RegisterOrGet Instance ''conv2d''))))))
           ''conv2d'')))
       = Of_cache (Algorithm 3)"
proof -
  have unseen: "fmlookup (auto_tune_map Instance) ''conv2d'' = None"
    by (simp add: Instance_def)
  have first: "RegisterOrGet Instance ''conv2d'' =
      (Ref ''conv2d'' 0, Instance\<lparr>auto_tune_map := fmupd ''conv2d'' AlgorithmsCache_init fmempty\<rparr>)"
    by (simp add: RegisterOrGet_absent [OF unseen]) (simp add: Instance_def)
  have through: "calls_through (Ref ''conv2d'' 0) quiet_calls = [CallSet 5 7]"
    by (simp add: quiet_calls_def)
  obtain reg' where run:
    "registry_steps quiet_calls (snd (RegisterOrGet Instance ''conv2d'')) = Some reg'"
    unfolding first snd_conv
    by (simp add: quiet_calls_def Instance_def Clean_def float_0_005_keeps)
  obtain reg'' where run2:
    "registry_steps quiet_calls
       (snd (registry_step (Through (fst (RegisterOrGet Instance ''conv2d'')) (CallSet 9 3))
               (snd (RegisterOrGet Instance ''conv2d'')))) = Some reg''"
    unfolding first snd_conv fst_conv
    by (simp add: quiet_calls_def Instance_def Clean_def float_0_005_keeps)
  have quiet: "\<forall>cl\<in>set quiet_calls. \<not> flushes cl"
    and quiet2: "\<forall>cl\<in>set quiet_calls.
      \<not> flushes cl \<and> (\<forall>v'. cl \<noteq> Through (fst (RegisterOrGet Instance ''conv2d'')) (CallSet 9 v'))"
    by (simp_all add: quiet_calls_def float_0_005_keeps)
  from RegisterOrGet_same_cache [of Instance "''conv2d''" quiet_calls reg' quiet_calls 9 3 reg'']
    unseen run run2 quiet quiet2
  have "deref (snd (RegisterOrGet Instance ''conv2d'')) (fst (RegisterOrGet Instance ''conv2d''))
        = Some AlgorithmsCache_init"
    and same: "RegisterOrGet reg' ''conv2d'' = (fst (RegisterOrGet Instance ''conv2d''), reg')"
    and object: "deref (snd (RegisterOrGet reg' ''conv2d'')) (fst (RegisterOrGet reg' ''conv2d''))
        = map_option (call_list (calls_through (fst (RegisterOrGet Instance ''conv2d'')) quiet_calls))
            (deref (snd (RegisterOrGet Instance ''conv2d''))
               (fst (RegisterOrGet Instance ''conv2d'')))"
    and visible: "fst (registry_step (Through (fst (RegisterOrGet reg'' ''conv2d'')) (CallGet 9))
               (snd (RegisterOrGet reg'' ''conv2d''))) = Of_cache (Algorithm 3)"
    by blast+
  note fresh = \<open>deref (snd (RegisterOrGet Instance ''conv2d''))
      (fst (RegisterOrGet Instance ''conv2d'')) = Some AlgorithmsCache_init\<close>
  have object': "deref reg' (fst (RegisterOrGet reg' ''conv2d'')) = Some (Set AlgorithmsCache_init 5 7)"
    using object unfolding fresh same snd_conv fst_conv
    by (simp add: first through del: deref.simps)
  then have get: "fst (registry_step (Through (fst (RegisterOrGet Instance ''conv2d'')) (CallGet 5)) reg')
      = Of_cache (Algorithm 7)"
    unfolding same fst_conv registry_step_Through by (simp add: Get_Set del: deref.simps)
  show ?thesis
    using unseen fresh same object' get visible through
    unfolding run run2 option.sel
    by (simp add: first float_0_005_keeps del: registry_step.simps deref.simps)
qed

text \<open>
  C9 without the condition on \<open>Clean\<close>.  When a flushing \<open>Clean\<close> comes between the
  two calls, the later \<open>RegisterOrGet\<close> creates a new, empty cache: a \<open>Set\<close> made through
  the earlier reference, found by \<open>Find\<close> before the flush, is not found through the later
  reference.  The two references differ, and the earlier one designates nothing any more.
\<close>

theorem RegisterOrGet_after_flush_counterexample:
  "fst (registry_step (Through (fst (RegisterOrGet Instance ''conv2d'')) (CallFind 5))
         (snd (registry_step (Through (fst (RegisterOrGet Instance ''conv2d'')) (CallSet 5 7))
                (snd (RegisterOrGet Instance ''conv2d'')))))
     = Of_cache (Bool True)
   \<and> deref (snd (RegisterOrGet flushed_registry ''conv2d''))
        (fst (RegisterOrGet flushed_registry ''conv2d''))
     = Some AlgorithmsCache_init
   \<and> fst (registry_step (Through (fst (RegisterOrGet flushed_registry ''conv2d'')) (CallFind 5))
         (snd (RegisterOrGet flushed_registry ''conv2d'')))
     = Of_cache (Bool False)
   \<and> fst (RegisterOrGet flushed_registry ''conv2d'') \<noteq> fst (RegisterOrGet Instance ''conv2d'')
   \<and> fst (registry_step (Through (fst (RegisterOrGet Instance ''conv2d'')) (CallFind 5))
         (snd (RegisterOrGet flushed_registry ''conv2d'')))
     = Dangling"
proof -
  have first: "RegisterOrGet Instance ''conv2d'' =
      (Ref ''conv2d'' 0, Instance\<lparr>auto_tune_map := fmupd ''conv2d'' AlgorithmsCache_init fmempty\<rparr>)"
    by (simp add: RegisterOrGet_def Instance_def)
  have empty: "auto_tune_map flushed_registry = fmempty"
    and once: "cleared flushed_registry = 1"
    unfolding flushed_registry_def first snd_conv
    by (simp_all add: Clean_def float_0_02_flushes Instance_def)
  then have again: "RegisterOrGet flushed_registry ''conv2d'' =
      (Ref ''conv2d'' 1,
       flushed_registry\<lparr>auto_tune_map := fmupd ''conv2d'' AlgorithmsCache_init fmempty\<rparr>)"
    by (simp add: RegisterOrGet_absent)
  show ?thesis
    unfolding again first
    by (simp add: Find_def Set_def AlgorithmsCache_init_def once Instance_def)
qed

text \<open>
  C10.  \<open>Get\<close>, \<open>Find\<close> and \<open>Set\<close> acquire the mutex of the cache first, touch
  the mapping and the counters only while they hold it, and release it last.
  \<open>CacheMisses\<close>, \<open>CacheHits\<close>, \<open>CacheHitRate\<close> and \<open>Size\<close> read the counters and the
  mapping without acquiring it.  So in every interleaving of threads that respects the
  mutex and in which the threads call only \<open>Get\<close>, \<open>Find\<close> and \<open>Set\<close>, each access to the
  mapping or a counter is made by the thread that holds the mutex.
\<close>

theorem locking_calls_exclusive:
  "guarded False (events (CallGet key) c)
   \<and> guarded False (events (CallFind key) c)
   \<and> guarded False (events (CallSet key algo) c)
   \<and> events CallCacheMisses c = [Read Member_cache_misses]
   \<and> events CallCacheHits c = [Read Member_cache_hits]
   \<and> Acquire \<notin> set (events CallCacheHitRate c)
   \<and> Read Member_cache_hits \<in> set (events CallCacheHitRate c)
   \<and> events CallSize c = [Read Member_hash]
   \<and> ((\<forall>cc\<in>set calls. Acquire \<in> set (events (fst cc) (snd cc))) \<longrightarrow>
        guarded False (concat (map (\<lambda>cc. events (fst cc) (snd cc)) calls)))
   \<and> (mutex_ok None s \<and> (\<forall>t. guarded False (thread_events t s)) \<longrightarrow> exclusive None s)"
proof -
  have "exclusive None s" if "mutex_ok None s" "\<forall>t. guarded False (thread_events t s)"
    using mutex_excludes [of None s] that by simp
  then show ?thesis
    using locking_calls_guarded [of calls] by simp
qed

theorem locking_calls_exclusive_witness:
  "Acquire \<in> set (events (CallFind 6) example_cache)
   \<and> Acquire \<in> set (events (CallSet 6 9) example_cache)
   \<and> thread_events 1 locked_schedule = events (CallFind 6) example_cache
   \<and> thread_events 2 locked_schedule = events (CallSet 6 9) example_cache
   \<and> guarded False (concat (map (\<lambda>cc. events (fst cc) (snd cc))
        [(CallFind 6, example_cache), (CallSet 6 9, example_cache)]))
   \<and> (\<forall>t. guarded False (thread_events t locked_schedule))
   \<and> mutex_ok None locked_schedule
   \<and> exclusive None locked_schedule"
proof -
  have threads: "\<forall>t. guarded False (thread_events t locked_schedule)"
    by (simp add: locked_schedule_def thread_events_def)
  have ok: "mutex_ok None locked_schedule" by (simp add: locked_schedule_def)
  have calls: "\<forall>cc\<in>set [(CallFind 6, example_cache), (CallSet 6 9, example_cache)].
      Acquire \<in> set (events (fst cc) (snd cc))"
    by simp
  have mine: "thread_events 1 locked_schedule = events (CallFind 6) example_cache"
    "thread_events 2 locked_schedule = events (CallSet 6 9) example_cache"
    by (simp_all add: locked_schedule_def thread_events_def example_cache_def)
  from locking_calls_exclusive [of 6 example_cache 9
      "[(CallFind 6, example_cache), (CallSet 6 9, example_cache)]" locked_schedule]
    threads ok calls mine
  show ?thesis by (simp del: events.simps)
qed

text \<open>
  C10 for the accessors.  \<open>CacheMisses\<close> does not acquire the mutex: while thread 1 holds
  it inside \<open>Find\<close>, between reading and writing \<open>cache_misses_\<close>, thread 2 reads the
  counter through \<open>CacheMisses\<close>, in a schedule that respects the mutex.
\<close>

theorem accessors_take_no_lock_counterexample:
  "Acquire \<notin> set (events CallCacheMisses example_cache)
   \<and> \<not> guarded False (events CallCacheMisses example_cache)
   \<and> thread_events 1 racing_schedule = events (CallFind 6) example_cache
   \<and> thread_events 2 racing_schedule = events CallCacheMisses example_cache
   \<and> mutex_ok None racing_schedule
   \<and> \<not> exclusive None racing_schedule"
  by (simp add: racing_schedule_def thread_events_def example_cache_def)

end
